theory Spec2Isabelle
  imports Main
begin

section \<open>Values shared by the client and the font service\<close>

text \<open>
  A Python character is a Unicode code point, modelled as a natural number; a Python
  string is a list of code points. The text that \<open>_urlencode_chinese\<close> returns holds
  ASCII only and is a \<^typ>\<open>string\<close>. A byte is a natural number below 256.
\<close>

type_synonym pychar = nat
type_synonym pystr = "pychar list"

datatype exn = KeyError | TypeError | IndexError | UnicodeEncodeError

section \<open>Percent-encoding: \<open>_urlencode_chinese\<close>\<close>

text \<open>
  \<open>char.encode('utf-8')\<close>: the UTF-8 bytes of one code point. A surrogate
  (\<open>0xD800\<close> to \<open>0xDFFF\<close>) has no UTF-8 form and the call raises; a number from
  \<open>0x110000\<close> on is no character at all.
\<close>

definition utf8_encode :: "pychar \<Rightarrow> exn + nat list" where
  "utf8_encode cp =
     (if cp < 0x80 then Inr [cp]
      else if cp < 0x800 then Inr [0xC0 + cp div 64, 0x80 + cp mod 64]
      else if 0xD800 \<le> cp \<and> cp < 0xE000 then Inl UnicodeEncodeError
      else if cp < 0x10000 then
        Inr [0xE0 + cp div 4096, 0x80 + (cp div 64) mod 64, 0x80 + cp mod 64]
      else if cp < 0x110000 then
        Inr [0xF0 + cp div 262144, 0x80 + (cp div 4096) mod 64,
             0x80 + (cp div 64) mod 64, 0x80 + cp mod 64]
      else Inl UnicodeEncodeError)"

definition safe_chars :: string where
  "safe_chars = ''abcdefghijklmnopqrstuvwxyzABCDEFGHIJKLMNOPQRSTUVWXYZ0123456789-_.~''"

text \<open>\<open>char in safe_chars\<close>, for a string \<open>char\<close> of one character.\<close>

definition in_safe_chars :: "pychar \<Rightarrow> bool" where
  "in_safe_chars c = (c \<in> set (map of_char safe_chars))"

text \<open>
  \<open>f"{byte:02X}"\<close>: the number in upper-case hexadecimal, padded with zeros on the
  left to two digits at least.
\<close>

definition hex_upper :: "nat \<Rightarrow> char" where
  "hex_upper d = ''0123456789ABCDEF'' ! d"

fun hex_digits :: "nat \<Rightarrow> string" where
  "hex_digits n = (if n < 16 then [hex_upper n] else hex_digits (n div 16) @ [hex_upper (n mod 16)])"

definition format_02X :: "nat \<Rightarrow> string" where
  "format_02X n = (let d = hex_digits n in if length d < 2 then CHR ''0'' # d else d)"

text \<open>The inner loop \<open>for byte in utf8_bytes: encoded_result += f"%{byte:02X}"\<close>.\<close>

fun encode_bytes :: "string \<Rightarrow> nat list \<Rightarrow> string" where
  "encode_bytes encoded_result [] = encoded_result"
| "encode_bytes encoded_result (byte # bs) =
     encode_bytes (encoded_result @ CHR ''%'' # format_02X byte) bs"

text \<open>The outer loop \<open>for char in text\<close>, with \<open>encoded_result\<close> as accumulator.\<close>

fun urlencode_loop :: "string \<Rightarrow> pystr \<Rightarrow> exn + string" where
  "urlencode_loop encoded_result [] = Inr encoded_result"
| "urlencode_loop encoded_result (char # text) =
     (if in_safe_chars char then urlencode_loop (encoded_result @ [char_of char]) text
      else (case utf8_encode char of
              Inl e \<Rightarrow> Inl e
            | Inr utf8_bytes \<Rightarrow> urlencode_loop (encode_bytes encoded_result utf8_bytes) text))"

definition urlencode_chinese :: "pystr \<Rightarrow> exn + string" where
  "urlencode_chinese text = urlencode_loop [] text"

subsection \<open>What the specification compares the encoder with\<close>

text \<open>A Unicode scalar value: a code point that is not a surrogate.\<close>

definition unicode_scalar :: "pychar \<Rightarrow> bool" where
  "unicode_scalar cp = (cp < 0xD800 \<or> (0xE000 \<le> cp \<and> cp < 0x110000))"

text \<open>The UTF-8 byte sequence of a whole string of scalar values.\<close>

definition utf8_bytes_of :: "pystr \<Rightarrow> nat list" where
  "utf8_bytes_of text = concat (map (\<lambda>c. case utf8_encode c of Inr bs \<Rightarrow> bs | Inl _ \<Rightarrow> []) text)"

text \<open>
  The unreserved ASCII characters of the specification: \<open>A\<close> to \<open>Z\<close>, \<open>a\<close> to
  \<open>z\<close>, \<open>0\<close> to \<open>9\<close>, and \<open>-\<close>, \<open>_\<close>, \<open>.\<close>, \<open>~\<close>.
\<close>

definition unreserved :: "pychar \<Rightarrow> bool" where
  "unreserved c =
     ((of_char CHR ''A'' \<le> c \<and> c \<le> of_char CHR ''Z'')
      \<or> (of_char CHR ''a'' \<le> c \<and> c \<le> of_char CHR ''z'')
      \<or> (of_char CHR ''0'' \<le> c \<and> c \<le> of_char CHR ''9'')
      \<or> c = of_char CHR ''-'' \<or> c = of_char CHR ''_''
      \<or> c = of_char CHR ''.'' \<or> c = of_char CHR ''~'')"

text \<open>
  The upper-case hexadecimal digit of a number below 16: \<open>0\<close> to \<open>9\<close>, then \<open>A\<close>
  to \<open>F\<close>.
\<close>

definition upper_hex_digit :: "nat \<Rightarrow> char" where
  "upper_hex_digit d =
     (if d < 10 then char_of (of_char CHR ''0'' + d) else char_of (of_char CHR ''A'' + (d - 10)))"

text \<open>One byte written as \<open>%XX\<close> with two upper-case hexadecimal digits.\<close>

definition percent_byte :: "nat \<Rightarrow> string" where
  "percent_byte b = [CHR ''%'', upper_hex_digit (b div 16), upper_hex_digit (b mod 16)]"

text \<open>
  The encoding of one character in the specification's words: an unreserved character
  unchanged, any other as its UTF-8 bytes, each as \<open>%XX\<close>.
\<close>

definition spec_encode_char :: "pychar \<Rightarrow> string" where
  "spec_encode_char c =
     (if unreserved c then [char_of c]
      else concat (map percent_byte (case utf8_encode c of Inr bs \<Rightarrow> bs | Inl _ \<Rightarrow> [])))"

text \<open>
  Standard percent-decoding to bytes: \<open>%\<close> followed by two hexadecimal digits is the
  byte they denote, every other character is its own code.
\<close>

definition hex_value :: "char \<Rightarrow> nat option" where
  "hex_value c =
     (let n = (of_char c :: nat) in
      if 48 \<le> n \<and> n \<le> 57 then Some (n - 48)
      else if 65 \<le> n \<and> n \<le> 70 then Some (n - 55)
      else if 97 \<le> n \<and> n \<le> 102 then Some (n - 87)
      else None)"

fun percent_decode :: "string \<Rightarrow> nat list" where
  "percent_decode [] = []"
| "percent_decode (c # rest) =
     (if c = CHR ''%'' then
        (case rest of
           a # b # rest' \<Rightarrow>
             (case (hex_value a, hex_value b) of
                (Some h, Some l) \<Rightarrow> (16 * h + l) # percent_decode rest'
              | _ \<Rightarrow> of_char c # percent_decode rest)
         | _ \<Rightarrow> of_char c # percent_decode rest)
      else of_char c # percent_decode rest)"

section \<open>JSON values and Python's reading of them\<close>

text \<open>
  What \<open>response.json()\<close> yields. Numbers are the integers (the service sends only
  those; fractional numbers are outside this model). A decoded object is a dictionary,
  kept as the list of its items; its keys are compared with ASCII literals only.
\<close>

datatype json =
    JNull
  | JBool bool
  | JInt int
  | JStr pystr
  | JArr "json list"
  | JObj "(string \<times> json) list"

type_synonym pydict = "(string \<times> json) list"

text \<open>Truth value of a Python object, as \<open>if\<close> and \<open>and\<close> test it.\<close>

fun truthy :: "json \<Rightarrow> bool" where
  "truthy JNull = False"
| "truthy (JBool b) = b"
| "truthy (JInt n) = (n \<noteq> 0)"
| "truthy (JStr s) = (s \<noteq> [])"
| "truthy (JArr xs) = (xs \<noteq> [])"
| "truthy (JObj kvs) = (kvs \<noteq> [])"

text \<open>\<open>d[key]\<close> raises KeyError on a missing key; \<open>d.get(key, default)\<close> does not.\<close>

definition dict_item :: "pydict \<Rightarrow> string \<Rightarrow> exn + json" where
  "dict_item d k = (case map_of d k of None \<Rightarrow> Inl KeyError | Some v \<Rightarrow> Inr v)"

definition dict_get :: "pydict \<Rightarrow> string \<Rightarrow> json \<Rightarrow> json" where
  "dict_get d k dflt = (case map_of d k of None \<Rightarrow> dflt | Some v \<Rightarrow> v)"

text \<open>
  A value used as a number (\<open>+\<close>, \<open>>\<close>, \<open>range\<close>): an integer is itself, a Boolean
  counts as 0 or 1, anything else raises TypeError.
\<close>

fun py_int :: "json \<Rightarrow> exn + int" where
  "py_int (JInt n) = Inr n"
| "py_int (JBool b) = Inr (if b then 1 else 0)"
| "py_int _ = Inl TypeError"

text \<open>
  Python's list index: a negative index counts from the end, and an index outside
  \<open>[-len, len)\<close> raises IndexError.
\<close>

definition py_norm_index :: "nat \<Rightarrow> int \<Rightarrow> nat option" where
  "py_norm_index n i =
     (if 0 \<le> i \<and> i < int n then Some (nat i)
      else if - int n \<le> i \<and> i < 0 then Some (nat (int n + i))
      else None)"

definition py_index :: "'a list \<Rightarrow> int \<Rightarrow> exn + 'a" where
  "py_index xs i =
     (case py_norm_index (length xs) i of None \<Rightarrow> Inl IndexError | Some k \<Rightarrow> Inr (xs ! k))"

text \<open>
  \<open>v[i]\<close> for an integer \<open>i\<close>: a list and a string are indexed, a dictionary with
  string keys has no integer key, every other value is not subscriptable.
\<close>

fun json_index :: "json \<Rightarrow> int \<Rightarrow> exn + json" where
  "json_index (JArr xs) i = py_index xs i"
| "json_index (JStr s) i = (case py_index s i of Inl e \<Rightarrow> Inl e | Inr c \<Rightarrow> Inr (JStr [c]))"
| "json_index (JObj kvs) i = Inl KeyError"
| "json_index _ i = Inl TypeError"

text \<open>\<open>range(n)\<close> and \<open>range(start, stop, step)\<close> for a positive step.\<close>

definition py_range :: "int \<Rightarrow> int list" where
  "py_range n = map int [0..<nat n]"

function py_range3 :: "int \<Rightarrow> int \<Rightarrow> int \<Rightarrow> int list" where
  "py_range3 start stop step =
     (if 0 < step \<and> start < stop then start # py_range3 (start + step) stop step else [])"
  by pat_completeness auto
termination
  by (relation "measure (\<lambda>(start, stop, step). nat (stop - start))") auto

declare py_range3.simps [simp del]

text \<open>\<open>f"{n}"\<close> for an integer: its decimal digits, with a sign when negative.\<close>

fun dec_digits :: "nat \<Rightarrow> string" where
  "dec_digits n =
     (if n < 10 then [''0123456789'' ! n] else dec_digits (n div 10) @ [''0123456789'' ! (n mod 10)])"

definition str_int :: "int \<Rightarrow> string" where
  "str_int i = (if i < 0 then CHR ''-'' # dec_digits (nat (- i)) else dec_digits (nat i))"

section \<open>The display object and the network\<close>

text \<open>
  The attributes of \<open>OledChineseDisplay\<close> that the pipeline reads or writes. The field
  \<open>requests_sent\<close> is not in the class: it records the URL of every
  \<open>urequests.get\<close> issued so far, so that network traffic shows in the state.
\<close>

record oled =
  self_width :: int
  self_height :: int
  font_api_url :: string
  scroll_mode :: bool
  default_font_size :: int
  chinese_font_cache :: "(pychar \<times> int) \<rightharpoonup> pydict"
  requests_sent :: "string list"

text \<open>
  What one \<open>urequests.get(url, timeout=10)\<close> brings: an exception (time-out, no
  route), or a response with a status code and a body; the body is \<open>None\<close> when
  \<open>response.json()\<close> raises on it. The network answers the \<open>n\<close>-th request for a
  URL as it likes, so the same URL may fail now and succeed later.
\<close>

datatype http_outcome = Transport_Error | Response int "json option"

type_synonym network = "nat \<Rightarrow> string \<Rightarrow> http_outcome"

section \<open>Fetching one glyph: \<open>_fetch_single_char_bitmap\<close>\<close>

definition request_url :: "oled \<Rightarrow> string \<Rightarrow> int \<Rightarrow> string" where
  "request_url self encoded_char font_size =
     font_api_url self @ ''text='' @ encoded_char @ ''&font_size='' @ str_int font_size"

definition fetch_single_char_bitmap ::
  "network \<Rightarrow> oled \<Rightarrow> pychar \<Rightarrow> int \<Rightarrow> pydict option \<times> oled" where
  "fetch_single_char_bitmap net self char font_size =
     (let cache_key = (char, font_size) in
      case chinese_font_cache self cache_key of
        Some data \<Rightarrow> (Some data, self)
      | None \<Rightarrow>
          (case urlencode_chinese [char] of
             Inl e \<Rightarrow> (None, self)
           | Inr encoded_char \<Rightarrow>
               (let url = request_url self encoded_char font_size;
                    self1 = self\<lparr>requests_sent := requests_sent self @ [url]\<rparr>
                in case net (length (requests_sent self)) url of
                     Transport_Error \<Rightarrow> (None, self1)
                   | Response status_code body \<Rightarrow>
                       if status_code = 200 then
                         (case body of
                            None \<Rightarrow> (None, self1)
                          | Some (JObj data) \<Rightarrow>
                              if truthy (dict_get data ''success'' (JBool False))
                              then (Some data,
                                    self1\<lparr>chinese_font_cache :=
                                            (chinese_font_cache self1)(cache_key \<mapsto> data)\<rparr>)
                              else (None, self1)
                          | Some _ \<Rightarrow> (None, self1))
                       else (None, self1))))"

subsection \<open>What the specification asks of a fetched glyph\<close>

text \<open>
  The fields \<open>bitmap\<close>, \<open>width\<close> and \<open>height\<close> are present and consistent:
  the bitmap is a list of \<open>height\<close> rows and every row is a list of \<open>width\<close> pixels.
\<close>

definition row_has_width :: "int \<Rightarrow> json \<Rightarrow> bool" where
  "row_has_width w r = (case r of JArr ps \<Rightarrow> int (length ps) = w | _ \<Rightarrow> False)"

definition json_rows :: "json option \<Rightarrow> json list option" where
  "json_rows v = (case v of Some (JArr rows) \<Rightarrow> Some rows | _ \<Rightarrow> None)"

definition json_int_of :: "json option \<Rightarrow> int option" where
  "json_int_of v = (case v of Some (JInt n) \<Rightarrow> Some n | _ \<Rightarrow> None)"

definition glyph_consistent :: "pydict \<Rightarrow> bool" where
  "glyph_consistent d =
     (case json_rows (map_of d ''bitmap'') of
        None \<Rightarrow> False
      | Some rows \<Rightarrow>
          (case json_int_of (map_of d ''width'') of
             None \<Rightarrow> False
           | Some w \<Rightarrow>
               (case json_int_of (map_of d ''height'') of
                  None \<Rightarrow> False
                | Some h \<Rightarrow> int (length rows) = h \<and> list_all (row_has_width w) rows)))"

subsection \<open>A display as \<open>__init__\<close> leaves it, and sample glyphs\<close>

definition init_oled :: "string \<Rightarrow> oled" where
  "init_oled url =
     \<lparr>self_width = 128, self_height = 64, font_api_url = url, scroll_mode = True,
      default_font_size = 24, chinese_font_cache = Map.empty, requests_sent = []\<rparr>"

definition glyph_A :: pydict where
  "glyph_A =
     [(''bitmap'', JArr [JArr [JInt 0, JInt 1], JArr [JInt 1, JInt 1]]),
      (''width'', JInt 2), (''height'', JInt 2), (''success'', JBool True)]"

definition glyph_B :: pydict where
  "glyph_B =
     [(''bitmap'', JArr [JArr [JInt 1], JArr [JInt 0], JArr [JInt 1]]),
      (''width'', JInt 1), (''height'', JInt 3), (''success'', JBool True)]"

text \<open>A reply that claims success and declares a size, with no bitmap at all.\<close>

definition glyph_without_bitmap :: pydict where
  "glyph_without_bitmap = [(''success'', JBool True), (''width'', JInt 5), (''height'', JInt 3)]"

text \<open>A network whose first request times out and whose later ones answer \<open>glyph_A\<close>.\<close>

definition flaky_network :: network where
  "flaky_network n url = (if n = 0 then Transport_Error else Response 200 (Some (JObj glyph_A)))"

definition dead_network :: network where
  "dead_network n url = Transport_Error"

text \<open>The display before any request, after the time-out, and after the glyph arrived.\<close>

definition url_A :: string where
  "url_A = ''http://host/api/font?text=A&font_size=24''"

definition oled_0 :: oled where
  "oled_0 = init_oled ''http://host/api/font?''"

definition oled_1 :: oled where
  "oled_1 = oled_0\<lparr>requests_sent := [url_A]\<rparr>"

definition oled_2 :: oled where
  "oled_2 = oled_0\<lparr>requests_sent := [url_A, url_A],
                    chinese_font_cache := [(0x41, 24) \<mapsto> glyph_A]\<rparr>"

text \<open>
  What the code itself asks of a reply before it returns it as a glyph: the character
  encodes, the status is 200, the body decodes to an object, and its \<open>success\<close> is true.
\<close>

definition fetch_accepts :: "network \<Rightarrow> oled \<Rightarrow> pychar \<Rightarrow> int \<Rightarrow> pydict \<Rightarrow> bool" where
  "fetch_accepts net self c fs g =
     (case urlencode_chinese [c] of
        Inl e \<Rightarrow> False
      | Inr enc \<Rightarrow>
          net (length (requests_sent self)) (request_url self enc fs) = Response 200 (Some (JObj g))
          \<and> truthy (dict_get g ''success'' (JBool False)))"

text \<open>A network that answers every request with the reply that has no bitmap.\<close>

definition unchecked_network :: network where
  "unchecked_network n url = Response 200 (Some (JObj glyph_without_bitmap))"

section \<open>Composing a line: \<open>_fetch_font_bitmap\<close>\<close>

text \<open>A field of a glyph used as a number, as in \<open>total_width += char_data['width']\<close>.\<close>

definition glyph_dim :: "pydict \<Rightarrow> string \<Rightarrow> exn + int" where
  "glyph_dim d k = (case dict_item d k of Inl e \<Rightarrow> Inl e | Inr v \<Rightarrow> py_int v)"

text \<open>
  The first loop, \<open>for char in text\<close>. It carries \<open>all_char_bitmaps\<close>,
  \<open>total_width\<close> and \<open>max_height\<close>, and ends with \<open>Inr None\<close> where the source
  returns \<open>None\<close>.
\<close>

fun fetch_loop ::
  "network \<Rightarrow> int \<Rightarrow> pystr \<Rightarrow> oled \<Rightarrow> pydict list \<Rightarrow> int \<Rightarrow> int \<Rightarrow>
   (exn + (pydict list \<times> int \<times> int) option) \<times> oled" where
  "fetch_loop net fs [] self all_char_bitmaps total_width max_height =
     (Inr (Some (all_char_bitmaps, total_width, max_height)), self)"
| "fetch_loop net fs (char # text) self all_char_bitmaps total_width max_height =
     (case fetch_single_char_bitmap net self char fs of
        (None, self1) \<Rightarrow> (Inr None, self1)
      | (Some char_data, self1) \<Rightarrow>
          if char_data = [] then (Inr None, self1)
          else
            (case dict_item char_data ''success'' of
               Inl e \<Rightarrow> (Inl e, self1)
             | Inr ok \<Rightarrow>
                 if \<not> truthy ok then (Inr None, self1)
                 else
                   (case glyph_dim char_data ''width'' of
                      Inl e \<Rightarrow> (Inl e, self1)
                    | Inr w \<Rightarrow>
                        (case glyph_dim char_data ''height'' of
                           Inl e \<Rightarrow> (Inl e, self1)
                         | Inr h \<Rightarrow>
                             fetch_loop net fs text self1 (all_char_bitmaps @ [char_data])
                               (total_width + w) (if h > max_height then h else max_height)))))"

text \<open>
  \<open>[[0 for _ in range(total_width)] for _ in range(max_height)]\<close>: a range of a
  negative number is empty.
\<close>

definition new_full_bitmap :: "int \<Rightarrow> int \<Rightarrow> int list list" where
  "new_full_bitmap total_width max_height =
     replicate (nat max_height) (replicate (nat total_width) 0)"

text \<open>\<open>full_bitmap[r][c] = v\<close>, each index read as Python reads it.\<close>

definition py_set2 :: "int list list \<Rightarrow> int \<Rightarrow> int \<Rightarrow> int \<Rightarrow> exn + int list list" where
  "py_set2 grid r c v =
     (case py_norm_index (length grid) r of
        None \<Rightarrow> Inl IndexError
      | Some i \<Rightarrow>
          (case py_norm_index (length (grid ! i)) c of
             None \<Rightarrow> Inl IndexError
           | Some j \<Rightarrow> Inr (grid[i := (grid ! i)[j := v]])))"

text \<open>The loop \<open>for x in range(char_width)\<close> of one glyph row \<open>y\<close>.\<close>

fun blit_row ::
  "json \<Rightarrow> int \<Rightarrow> int \<Rightarrow> int \<Rightarrow> int list \<Rightarrow> int list list \<Rightarrow> exn + int list list" where
  "blit_row char_bitmap y_offset current_x y [] full_bitmap = Inr full_bitmap"
| "blit_row char_bitmap y_offset current_x y (x # xs) full_bitmap =
     (case json_index char_bitmap y of
        Inl e \<Rightarrow> Inl e
      | Inr row \<Rightarrow>
          (case json_index row x of
             Inl e \<Rightarrow> Inl e
           | Inr p \<Rightarrow>
               if truthy p then
                 (case py_set2 full_bitmap (y_offset + y) (current_x + x) 1 of
                    Inl e \<Rightarrow> Inl e
                  | Inr full1 \<Rightarrow> blit_row char_bitmap y_offset current_x y xs full1)
               else blit_row char_bitmap y_offset current_x y xs full_bitmap))"

text \<open>The loop \<open>for y in range(char_height)\<close>.\<close>

fun blit_rows ::
  "json \<Rightarrow> int \<Rightarrow> int \<Rightarrow> int \<Rightarrow> int list \<Rightarrow> int list list \<Rightarrow> exn + int list list" where
  "blit_rows char_bitmap char_width y_offset current_x [] full_bitmap = Inr full_bitmap"
| "blit_rows char_bitmap char_width y_offset current_x (y # ys) full_bitmap =
     (case blit_row char_bitmap y_offset current_x y (py_range char_width) full_bitmap of
        Inl e \<Rightarrow> Inl e
      | Inr full1 \<Rightarrow> blit_rows char_bitmap char_width y_offset current_x ys full1)"

text \<open>The second loop, \<open>for char_data in all_char_bitmaps\<close>, with \<open>current_x\<close>.\<close>

fun stitch_loop :: "int \<Rightarrow> int \<Rightarrow> pydict list \<Rightarrow> int list list \<Rightarrow> exn + int list list" where
  "stitch_loop max_height current_x [] full_bitmap = Inr full_bitmap"
| "stitch_loop max_height current_x (char_data # rest) full_bitmap =
     (case dict_item char_data ''bitmap'' of
        Inl e \<Rightarrow> Inl e
      | Inr char_bitmap \<Rightarrow>
          (case glyph_dim char_data ''width'' of
             Inl e \<Rightarrow> Inl e
           | Inr char_width \<Rightarrow>
               (case glyph_dim char_data ''height'' of
                  Inl e \<Rightarrow> Inl e
                | Inr char_height \<Rightarrow>
                    (case blit_rows char_bitmap char_width (max_height - char_height) current_x
                            (py_range char_height) full_bitmap of
                       Inl e \<Rightarrow> Inl e
                     | Inr full1 \<Rightarrow>
                         stitch_loop max_height (current_x + char_width) rest full1))))"

text \<open>The dictionary that \<open>_fetch_font_bitmap\<close> returns.\<close>

definition full_bitmap_data :: "int list list \<Rightarrow> int \<Rightarrow> int \<Rightarrow> pydict" where
  "full_bitmap_data full_bitmap total_width max_height =
     [(''bitmap'', JArr (map (\<lambda>row. JArr (map JInt row)) full_bitmap)),
      (''width'', JInt total_width), (''height'', JInt max_height), (''success'', JBool True)]"

definition actual_font_size :: "oled \<Rightarrow> int option \<Rightarrow> int" where
  "actual_font_size self font_size =
     (case font_size of Some f \<Rightarrow> f | None \<Rightarrow> default_font_size self)"

definition fetch_font_bitmap ::
  "network \<Rightarrow> oled \<Rightarrow> pystr \<Rightarrow> int option \<Rightarrow> (exn + pydict option) \<times> oled" where
  "fetch_font_bitmap net self text font_size =
     (case fetch_loop net (actual_font_size self font_size) text self [] 0 0 of
        (Inl e, self1) \<Rightarrow> (Inl e, self1)
      | (Inr None, self1) \<Rightarrow> (Inr None, self1)
      | (Inr (Some (all_char_bitmaps, total_width, max_height)), self1) \<Rightarrow>
          if all_char_bitmaps = [] then (Inr None, self1)
          else
            (case stitch_loop max_height 0 all_char_bitmaps
                    (new_full_bitmap total_width max_height) of
               Inl e \<Rightarrow> (Inl e, self1)
             | Inr full_bitmap \<Rightarrow>
                 (Inr (Some (full_bitmap_data full_bitmap total_width max_height)), self1)))"

subsection \<open>The same loops with the assignment as a parameter\<close>

text \<open>
  Python wraps a negative index around, so a write that misses the grid on the low side
  need not raise. To tell such a write from one inside the grid, the loops of
  \<open>_fetch_font_bitmap\<close> are given once more with the assignment
  \<open>full_bitmap[r][c] = v\<close> as a parameter \<open>write\<close>; with \<open>py_set2\<close> they are
  the loops above. \<open>py_set2_strict\<close> is the assignment that raises for every index
  outside \<open>[0, len)\<close>.
\<close>

definition py_set2_strict :: "int list list \<Rightarrow> int \<Rightarrow> int \<Rightarrow> int \<Rightarrow> exn + int list list" where
  "py_set2_strict grid r c v =
     (if 0 \<le> r \<and> r < int (length grid) \<and> 0 \<le> c \<and> c < int (length (grid ! nat r))
      then Inr (grid[nat r := (grid ! nat r)[nat c := v]])
      else Inl IndexError)"

fun blit_row_with ::
  "(int list list \<Rightarrow> int \<Rightarrow> int \<Rightarrow> int \<Rightarrow> exn + int list list) \<Rightarrow>
   json \<Rightarrow> int \<Rightarrow> int \<Rightarrow> int \<Rightarrow> int list \<Rightarrow> int list list \<Rightarrow> exn + int list list" where
  "blit_row_with write char_bitmap y_offset current_x y [] full_bitmap = Inr full_bitmap"
| "blit_row_with write char_bitmap y_offset current_x y (x # xs) full_bitmap =
     (case json_index char_bitmap y of
        Inl e \<Rightarrow> Inl e
      | Inr row \<Rightarrow>
          (case json_index row x of
             Inl e \<Rightarrow> Inl e
           | Inr p \<Rightarrow>
               if truthy p then
                 (case write full_bitmap (y_offset + y) (current_x + x) 1 of
                    Inl e \<Rightarrow> Inl e
                  | Inr full1 \<Rightarrow> blit_row_with write char_bitmap y_offset current_x y xs full1)
               else blit_row_with write char_bitmap y_offset current_x y xs full_bitmap))"

fun blit_rows_with ::
  "(int list list \<Rightarrow> int \<Rightarrow> int \<Rightarrow> int \<Rightarrow> exn + int list list) \<Rightarrow>
   json \<Rightarrow> int \<Rightarrow> int \<Rightarrow> int \<Rightarrow> int list \<Rightarrow> int list list \<Rightarrow> exn + int list list" where
  "blit_rows_with write char_bitmap char_width y_offset current_x [] full_bitmap = Inr full_bitmap"
| "blit_rows_with write char_bitmap char_width y_offset current_x (y # ys) full_bitmap =
     (case blit_row_with write char_bitmap y_offset current_x y (py_range char_width) full_bitmap of
        Inl e \<Rightarrow> Inl e
      | Inr full1 \<Rightarrow> blit_rows_with write char_bitmap char_width y_offset current_x ys full1)"

fun stitch_loop_with ::
  "(int list list \<Rightarrow> int \<Rightarrow> int \<Rightarrow> int \<Rightarrow> exn + int list list) \<Rightarrow>
   int \<Rightarrow> int \<Rightarrow> pydict list \<Rightarrow> int list list \<Rightarrow> exn + int list list" where
  "stitch_loop_with write max_height current_x [] full_bitmap = Inr full_bitmap"
| "stitch_loop_with write max_height current_x (char_data # rest) full_bitmap =
     (case dict_item char_data ''bitmap'' of
        Inl e \<Rightarrow> Inl e
      | Inr char_bitmap \<Rightarrow>
          (case glyph_dim char_data ''width'' of
             Inl e \<Rightarrow> Inl e
           | Inr char_width \<Rightarrow>
               (case glyph_dim char_data ''height'' of
                  Inl e \<Rightarrow> Inl e
                | Inr char_height \<Rightarrow>
                    (case blit_rows_with write char_bitmap char_width (max_height - char_height)
                            current_x (py_range char_height) full_bitmap of
                       Inl e \<Rightarrow> Inl e
                     | Inr full1 \<Rightarrow>
                         stitch_loop_with write max_height (current_x + char_width) rest full1))))"

definition fetch_font_bitmap_with ::
  "(int list list \<Rightarrow> int \<Rightarrow> int \<Rightarrow> int \<Rightarrow> exn + int list list) \<Rightarrow>
   network \<Rightarrow> oled \<Rightarrow> pystr \<Rightarrow> int option \<Rightarrow> (exn + pydict option) \<times> oled" where
  "fetch_font_bitmap_with write net self text font_size =
     (case fetch_loop net (actual_font_size self font_size) text self [] 0 0 of
        (Inl e, self1) \<Rightarrow> (Inl e, self1)
      | (Inr None, self1) \<Rightarrow> (Inr None, self1)
      | (Inr (Some (all_char_bitmaps, total_width, max_height)), self1) \<Rightarrow>
          if all_char_bitmaps = [] then (Inr None, self1)
          else
            (case stitch_loop_with write max_height 0 all_char_bitmaps
                    (new_full_bitmap total_width max_height) of
               Inl e \<Rightarrow> (Inl e, self1)
             | Inr full_bitmap \<Rightarrow>
                 (Inr (Some (full_bitmap_data full_bitmap total_width max_height)), self1)))"

subsection \<open>The specification's view of a line\<close>

text \<open>
  The glyph lookups of a line, one character after the other: the glyphs obtained before
  the first failing lookup, the text from the failing character on (empty when every
  lookup succeeded), and the state right after the last lookup made.
\<close>

fun fetch_prefix :: "network \<Rightarrow> int \<Rightarrow> pystr \<Rightarrow> oled \<Rightarrow> pydict list \<times> pystr \<times> oled" where
  "fetch_prefix net fs [] self = ([], [], self)"
| "fetch_prefix net fs (c # cs) self =
     (case fetch_single_char_bitmap net self c fs of
        (None, self1) \<Rightarrow> ([], c # cs, self1)
      | (Some g, self1) \<Rightarrow>
          (case fetch_prefix net fs cs self1 of (gs, rest, self2) \<Rightarrow> (g # gs, rest, self2)))"

text \<open>Width, height and pixels of a glyph, and the column where the \<open>i\<close>-th glyph starts.\<close>

definition glyph_width :: "pydict \<Rightarrow> int" where
  "glyph_width d = (case glyph_dim d ''width'' of Inr w \<Rightarrow> w | Inl e \<Rightarrow> 0)"

definition glyph_height :: "pydict \<Rightarrow> int" where
  "glyph_height d = (case glyph_dim d ''height'' of Inr h \<Rightarrow> h | Inl e \<Rightarrow> 0)"

definition json_pixel :: "json \<Rightarrow> nat \<Rightarrow> nat \<Rightarrow> bool" where
  "json_pixel b x y =
     (case b of
        JArr rows \<Rightarrow> (case rows ! y of JArr ps \<Rightarrow> truthy (ps ! x) | _ \<Rightarrow> False)
      | _ \<Rightarrow> False)"

definition glyph_pixel :: "pydict \<Rightarrow> nat \<Rightarrow> nat \<Rightarrow> bool" where
  "glyph_pixel d x y = json_pixel (dict_get d ''bitmap'' JNull) x y"

definition cursor_at :: "pydict list \<Rightarrow> nat \<Rightarrow> int" where
  "cursor_at gs i = sum_list (map glyph_width (take i gs))"

text \<open>
  A glyph of the data model: it carries \<open>success\<close>, its width is not negative, and its
  bitmap has \<open>height\<close> rows of \<open>width\<close> pixels each.
\<close>

definition glyph_ok :: "pydict \<Rightarrow> bool" where
  "glyph_ok d =
     (glyph_consistent d \<and> truthy (dict_get d ''success'' (JBool False)) \<and> 0 \<le> glyph_width d)"

text \<open>A glyph whose \<open>width\<close> and \<open>height\<close> are there and are numbers.\<close>

definition has_dims :: "pydict \<Rightarrow> bool" where
  "has_dims d =
     (case (glyph_dim d ''width'', glyph_dim d ''height'') of
        (Inr w, Inr h) \<Rightarrow> True
      | _ \<Rightarrow> False)"

text \<open>Every cached entry carries a true \<open>success\<close>, as every entry the fetch stores does.\<close>

definition cache_ok :: "oled \<Rightarrow> bool" where
  "cache_ok self =
     (\<forall>k d. chinese_font_cache self k = Some d \<longrightarrow> truthy (dict_get d ''success'' (JBool False)))"

text \<open>A font service that knows the glyphs of \<open>A\<close> and \<open>B\<close> and nothing else.\<close>

definition url_B :: string where
  "url_B = ''http://host/api/font?text=B&font_size=24''"

definition font_network :: network where
  "font_network n url =
     (if url = url_A then Response 200 (Some (JObj glyph_A))
      else if url = url_B then Response 200 (Some (JObj glyph_B))
      else Response 500 (Some (JObj [(''error'', JStr [0x3F]), (''success'', JBool False)])))"

text \<open>A grid of \<open>rows\<close> rows that all have \<open>cols\<close> columns.\<close>

definition grid_dims :: "nat \<Rightarrow> nat \<Rightarrow> 'a list list \<Rightarrow> bool" where
  "grid_dims rows cols grid = (length grid = rows \<and> (\<forall>row\<in>set grid. length row = cols))"

text \<open>
  A glyph drawn bottom-aligned in a line of height \<open>max_height\<close>, its left edge at
  column \<open>cursor\<close>, has a set pixel that lands on column \<open>c\<close> of row \<open>r\<close>.
\<close>

definition glyph_covers :: "int \<Rightarrow> int \<Rightarrow> pydict \<Rightarrow> nat \<Rightarrow> nat \<Rightarrow> bool" where
  "glyph_covers max_height cursor g c r =
     (cursor \<le> int c \<and> int c < cursor + glyph_width g
      \<and> max_height - glyph_height g \<le> int r
      \<and> glyph_pixel g (nat (int c - cursor)) (nat (int r - (max_height - glyph_height g))))"

text \<open>
  The display after the lines \<open>AB\<close> (both glyphs fetched) and \<open>ACB\<close> (the
  service has no \<open>C\<close>) on \<open>font_network\<close>.
\<close>

definition url_C :: string where
  "url_C = ''http://host/api/font?text=C&font_size=24''"

definition oled_AB :: oled where
  "oled_AB = oled_0\<lparr>requests_sent := [url_A, url_B],
                     chinese_font_cache := [(0x41, 24) \<mapsto> glyph_A, (0x42, 24) \<mapsto> glyph_B]\<rparr>"

definition oled_AC :: oled where
  "oled_AC = oled_0\<lparr>requests_sent := [url_A, url_C],
                     chinese_font_cache := [(0x41, 24) \<mapsto> glyph_A]\<rparr>"

section \<open>Drawing: \<open>_render_bitmap\<close>\<close>

text \<open>
  A frame is the list of the calls \<open>oled.pixel(px, py, 1)\<close> made between
  \<open>oled.fill(0)\<close> and \<open>oled.show()\<close>, in the order made; the pause after a frame is
  not modelled. The loops below are \<open>for x in range(width)\<close>, \<open>for y in
  range(height)\<close> and \<open>for offset in ...\<close> of the marquee mode.
\<close>

type_synonym frame = "(int \<times> int) list"

fun scroll_row ::
  "int \<Rightarrow> int \<Rightarrow> int \<Rightarrow> json \<Rightarrow> int \<Rightarrow> int list \<Rightarrow> frame \<Rightarrow> exn + frame" where
  "scroll_row sw offset y_offset bitmap y [] drawn = Inr drawn"
| "scroll_row sw offset y_offset bitmap y (x # xs) drawn =
     (case json_index bitmap y of
        Inl e \<Rightarrow> Inl e
      | Inr row \<Rightarrow>
          (case json_index row x of
             Inl e \<Rightarrow> Inl e
           | Inr p \<Rightarrow>
               if truthy p then
                 (let px = sw - offset + x; py = y_offset + y in
                  if 0 \<le> px \<and> px < sw
                  then scroll_row sw offset y_offset bitmap y xs (drawn @ [(px, py)])
                  else scroll_row sw offset y_offset bitmap y xs drawn)
               else scroll_row sw offset y_offset bitmap y xs drawn))"

fun scroll_rows ::
  "int \<Rightarrow> int \<Rightarrow> int \<Rightarrow> json \<Rightarrow> int \<Rightarrow> int list \<Rightarrow> frame \<Rightarrow> exn + frame" where
  "scroll_rows sw offset y_offset bitmap w [] drawn = Inr drawn"
| "scroll_rows sw offset y_offset bitmap w (y # ys) drawn =
     (case scroll_row sw offset y_offset bitmap y (py_range w) drawn of
        Inl e \<Rightarrow> Inl e
      | Inr drawn1 \<Rightarrow> scroll_rows sw offset y_offset bitmap w ys drawn1)"

text \<open>The body of the offset loop: one frame of the marquee.\<close>

definition scroll_frame :: "oled \<Rightarrow> json \<Rightarrow> int \<Rightarrow> int \<Rightarrow> int \<Rightarrow> int \<Rightarrow> exn + frame" where
  "scroll_frame self bitmap w h y_offset offset =
     scroll_rows (self_width self) offset y_offset bitmap w (py_range h) []"

fun scroll_frames ::
  "oled \<Rightarrow> json \<Rightarrow> int \<Rightarrow> int \<Rightarrow> int \<Rightarrow> int list \<Rightarrow> exn + frame list" where
  "scroll_frames self bitmap w h y_offset [] = Inr []"
| "scroll_frames self bitmap w h y_offset (offset # offsets) =
     (case scroll_frame self bitmap w h y_offset offset of
        Inl e \<Rightarrow> Inl e
      | Inr fr \<Rightarrow>
          (case scroll_frames self bitmap w h y_offset offsets of
             Inl e \<Rightarrow> Inl e
           | Inr frs \<Rightarrow> Inr (fr # frs)))"

text \<open>The static mode draws every set pixel, shifted to the centre, with no test.\<close>

fun static_row :: "int \<Rightarrow> int \<Rightarrow> json \<Rightarrow> int \<Rightarrow> int list \<Rightarrow> frame \<Rightarrow> exn + frame" where
  "static_row x_offset y_offset bitmap y [] drawn = Inr drawn"
| "static_row x_offset y_offset bitmap y (x # xs) drawn =
     (case json_index bitmap y of
        Inl e \<Rightarrow> Inl e
      | Inr row \<Rightarrow>
          (case json_index row x of
             Inl e \<Rightarrow> Inl e
           | Inr p \<Rightarrow>
               if truthy p
               then static_row x_offset y_offset bitmap y xs (drawn @ [(x_offset + x, y_offset + y)])
               else static_row x_offset y_offset bitmap y xs drawn))"

fun static_rows :: "int \<Rightarrow> int \<Rightarrow> json \<Rightarrow> int \<Rightarrow> int list \<Rightarrow> frame \<Rightarrow> exn + frame" where
  "static_rows x_offset y_offset bitmap w [] drawn = Inr drawn"
| "static_rows x_offset y_offset bitmap w (y # ys) drawn =
     (case static_row x_offset y_offset bitmap y (py_range w) drawn of
        Inl e \<Rightarrow> Inl e
      | Inr drawn1 \<Rightarrow> static_rows x_offset y_offset bitmap w ys drawn1)"

text \<open>
  \<open>_render_bitmap\<close>, with the offsets of the marquee as a parameter: the two variants
  of the class differ in them only.
\<close>

definition render_with :: "(int \<Rightarrow> int list) \<Rightarrow> oled \<Rightarrow> pydict \<Rightarrow> exn + frame list" where
  "render_with offsets_of self bitmap_data =
     (case dict_item bitmap_data ''bitmap'' of
        Inl e \<Rightarrow> Inl e
      | Inr bitmap \<Rightarrow>
          (case glyph_dim bitmap_data ''width'' of
             Inl e \<Rightarrow> Inl e
           | Inr w \<Rightarrow>
               (case glyph_dim bitmap_data ''height'' of
                  Inl e \<Rightarrow> Inl e
                | Inr h \<Rightarrow>
                    (let y_offset = (self_height self - h) div 2 in
                     if scroll_mode self then
                       (let total_scroll_width = self_width self + w in
                        scroll_frames self bitmap w h y_offset (offsets_of total_scroll_width))
                     else
                       (let x_offset = (self_width self - w) div 2 in
                        case static_rows x_offset y_offset bitmap w (py_range h) [] of
                          Inl e \<Rightarrow> Inl e
                        | Inr fr \<Rightarrow> Inr [fr])))))"

text \<open>
  In \<open>demo1/oled_display_size.py\<close>: \<open>scroll_step = 2\<close> and
  \<open>range(0, total_scroll_width + scroll_step, scroll_step)\<close>.
\<close>

definition scroll_offsets :: "int \<Rightarrow> int list" where
  "scroll_offsets total_scroll_width = py_range3 0 (total_scroll_width + 2) 2"

definition render_bitmap :: "oled \<Rightarrow> pydict \<Rightarrow> exn + frame list" where
  "render_bitmap self bitmap_data = render_with scroll_offsets self bitmap_data"

text \<open>In \<open>oled_display.py\<close>: \<open>range(total_scroll_width)\<close>.\<close>

definition scroll_offsets_v0 :: "int \<Rightarrow> int list" where
  "scroll_offsets_v0 total_scroll_width = py_range total_scroll_width"

definition render_bitmap_v0 :: "oled \<Rightarrow> pydict \<Rightarrow> exn + frame list" where
  "render_bitmap_v0 self bitmap_data = render_with scroll_offsets_v0 self bitmap_data"

text \<open>A bitmap of one set pixel.\<close>

definition dot_bitmap :: pydict where
  "dot_bitmap =
     [(''bitmap'', JArr [JArr [JInt 1]]), (''width'', JInt 1), (''height'', JInt 1),
      (''success'', JBool True)]"

text \<open>
  A reply whose rows match its declared size, an empty bitmap of height 0, but whose
  declared width is negative; and a font service that answers it for \<open>A\<close> and the
  one-pixel bitmap for \<open>B\<close>.
\<close>

definition glyph_negative :: pydict where
  "glyph_negative =
     [(''bitmap'', JArr []), (''width'', JInt (- 1)), (''height'', JInt 0),
      (''success'', JBool True)]"

definition odd_network :: network where
  "odd_network n url =
     (if url = url_A then Response 200 (Some (JObj glyph_negative))
      else Response 200 (Some (JObj dot_bitmap)))"

text \<open>The last frame shown and the number of frames, of a rendering that does not raise.\<close>

definition last_frame :: "exn + frame list \<Rightarrow> exn + frame" where
  "last_frame r = (case r of Inl e \<Rightarrow> Inl e | Inr frs \<Rightarrow> Inr (last frs))"

definition frame_count :: "exn + frame list \<Rightarrow> exn + nat" where
  "frame_count r = (case r of Inl e \<Rightarrow> Inl e | Inr frs \<Rightarrow> Inr (length frs))"

text \<open>
  The pixels the specification puts on the screen at a scroll offset: a set pixel
  \<open>(x, y)\<close> of the bitmap goes to \<open>(width - offset + x, y_offset + y)\<close>, with
  \<open>y_offset\<close> centring the bitmap vertically, when that column is on the screen.
\<close>

definition scroll_pixels :: "oled \<Rightarrow> pydict \<Rightarrow> int \<Rightarrow> (int \<times> int) set" where
  "scroll_pixels self bitmap_data offset =
     {(px, py). \<exists>x y. 0 \<le> x \<and> x < glyph_width bitmap_data
        \<and> 0 \<le> y \<and> y < glyph_height bitmap_data
        \<and> glyph_pixel bitmap_data (nat x) (nat y)
        \<and> px = self_width self - offset + x
        \<and> py = (self_height self - glyph_height bitmap_data) div 2 + y
        \<and> 0 \<le> px \<and> px < self_width self}"

section \<open>The font service: \<open>text_to_bitmap\<close>\<close>

text \<open>
  Pillow is not part of the repository. What it does for one call is a parameter:
  the box that \<open>textbbox((0, 0), text, font)\<close> measures (\<open>None\<close> when loading the
  font or measuring raises), whether \<open>Image.new\<close>, \<open>draw.text\<close> or
  \<open>getpixel\<close> raise for an image of a given width and height (for want of memory,
  say), the pixel that \<open>image.getpixel((x, y))\<close> reads after the text is drawn, and
  the text of the exception, for the error reply.
\<close>

record pillow =
  textbbox :: "(int \<times> int \<times> int \<times> int) option"
  image_raises :: "int \<Rightarrow> int \<Rightarrow> bool"
  getpixel :: "int \<Rightarrow> int \<Rightarrow> int"
  error_text :: pystr

text \<open>The characters that \<open>str.strip()\<close> removes.\<close>

definition py_isspace :: "pychar \<Rightarrow> bool" where
  "py_isspace c =
     ((0x09 \<le> c \<and> c \<le> 0x0D) \<or> (0x1C \<le> c \<and> c \<le> 0x20) \<or> c = 0x85 \<or> c = 0xA0
      \<or> c = 0x1680 \<or> (0x2000 \<le> c \<and> c \<le> 0x200A) \<or> c = 0x2028 \<or> c = 0x2029
      \<or> c = 0x202F \<or> c = 0x205F \<or> c = 0x3000)"

definition strip :: "pystr \<Rightarrow> pystr" where
  "strip s = rev (dropWhile py_isspace (rev (dropWhile py_isspace s)))"

definition error_reply :: "pillow \<Rightarrow> pydict" where
  "error_reply pil = [(''error'', JStr (error_text pil)), (''success'', JBool False)]"

text \<open>
  \<open>Image.new('1', (width, height), 0)\<close> raises on a negative side and on a side
  that does not fit a C \<open>int\<close>, and Pillow may raise for other sizes as well; the
  \<open>except\<close> clause turns every exception into the error reply.
\<close>

definition text_to_bitmap :: "pillow \<Rightarrow> pystr \<Rightarrow> int \<Rightarrow> pydict" where
  "text_to_bitmap pil text font_size =
     (case textbbox pil of
        None \<Rightarrow> error_reply pil
      | Some (x0, y0, x1, y1) \<Rightarrow>
          (let width0 = x1 - x0;
               height0 = y1 - y0;
               blank = (strip text = []);
               estimated_space_width = font_size div 3;
               width =
                 (if blank then
                    (if width0 = 0 \<and> length text > 0
                     then estimated_space_width * int (length text)
                     else if width0 = 0 \<and> length text = 0 then 1
                     else width0)
                  else width0);
               height = (if blank \<and> height0 = 0 then font_size else height0)
           in if width < 0 \<or> height < 0 \<or> 2 ^ 31 \<le> width \<or> 2 ^ 31 \<le> height
                 \<or> image_raises pil width height
              then error_reply pil
              else
                [(''bitmap'',
                  JArr (map (\<lambda>y. JArr (map (\<lambda>x. JInt (if getpixel pil x y \<noteq> 0 then 1 else 0))
                                          (py_range width)))
                         (py_range height))),
                 (''width'', JInt width), (''height'', JInt height),
                 (''success'', JBool True)]))"

text \<open>
  Two measurements of a text of spaces, by a Pillow that raises nothing: an empty box,
  and the box of a font whose cells have a fixed size, as the built-in fallback font's
  have.
\<close>

definition pillow_empty_box :: pillow where
  "pillow_empty_box =
     \<lparr>textbbox = Some (0, 0, 0, 0), image_raises = (\<lambda>w h. False), getpixel = (\<lambda>x y. 0),
      error_text = []\<rparr>"

definition pillow_cell_box :: pillow where
  "pillow_cell_box =
     \<lparr>textbbox = Some (0, 0, 6, 11), image_raises = (\<lambda>w h. False), getpixel = (\<lambda>x y. 0),
      error_text = []\<rparr>"

section \<open>Properties of the percent-encoder\<close>

lemma hex_digits_small: "n < 16 \<Longrightarrow> hex_digits n = [hex_upper n]"
  by simp

lemma format_02X_byte: "b < 256 \<Longrightarrow> format_02X b = [hex_upper (b div 16), hex_upper (b mod 16)]"
proof -
  assume b: "b < 256"
  show ?thesis
  proof (cases "b < 16")
    case True
    then show ?thesis by (simp add: format_02X_def hex_upper_def)
  next
    case False
    with b have "b div 16 < 16" by simp
    then have "hex_digits (b div 16) = [hex_upper (b div 16)]" by simp
    with False show ?thesis by (simp add: format_02X_def)
  qed
qed

text \<open>
  The characters of \<open>safe_chars\<close> are exactly the unreserved characters, and the
  digits of \<open>{byte:02X}\<close> are the upper-case hexadecimal digits.
\<close>

lemma in_safe_chars_unreserved: "in_safe_chars c \<longleftrightarrow> unreserved c"
  unfolding in_safe_chars_def safe_chars_def unreserved_def
  by simp presburger

lemma hex_upper_digit: "d < 16 \<Longrightarrow> hex_upper d = upper_hex_digit d"
proof -
  assume "d < 16"
  then have "d \<in> set [0..<16]" by simp
  then have "d \<in> {0,1,2,3,4,5,6,7,8,9,10,11,12,13,14,15}" by (simp add: upt_rec numeral_eq_Suc)
  then show ?thesis
    by (elim insertE emptyE; hypsubst; code_simp)
qed

lemma percent_byte_code:
  "b < 256 \<Longrightarrow> percent_byte b = [CHR ''%'', hex_upper (b div 16), hex_upper (b mod 16)]"
proof -
  assume "b < 256"
  then have "b div 16 < 16" "b mod 16 < 16" by simp_all
  then show ?thesis by (simp add: percent_byte_def hex_upper_digit)
qed

lemma spec_encode_char_code:
  "spec_encode_char c =
     (if in_safe_chars c then [char_of c]
      else concat (map percent_byte (case utf8_encode c of Inr bs \<Rightarrow> bs | Inl _ \<Rightarrow> [])))"
  by (simp add: spec_encode_char_def in_safe_chars_unreserved)

lemma encode_bytes_eq:
  "encode_bytes acc bs = acc @ concat (map (\<lambda>b. CHR ''%'' # format_02X b) bs)"
  by (induction bs arbitrary: acc) simp_all

lemma encode_bytes_percent:
  "\<forall>b\<in>set bs. b < 256 \<Longrightarrow> encode_bytes acc bs = acc @ concat (map percent_byte bs)"
  by (induction bs arbitrary: acc) (simp_all add: format_02X_byte percent_byte_code)

lemma utf8_encode_scalar:
  "unicode_scalar c \<Longrightarrow> \<exists>bs. utf8_encode c = Inr bs \<and> (\<forall>b\<in>set bs. b < 256)"
  unfolding unicode_scalar_def utf8_encode_def
  by (auto simp: div_less_iff_less_mult)

lemma in_safe_chars_cases:
  "in_safe_chars c \<Longrightarrow> c < 128 \<and> c \<noteq> 37"
  unfolding in_safe_chars_def safe_chars_def by auto

lemma hex_value_upper: "d < 16 \<Longrightarrow> hex_value (hex_upper d) = Some d"
proof -
  assume "d < 16"
  then have "d \<in> set [0..<16]" by simp
  then have "d \<in> {0,1,2,3,4,5,6,7,8,9,10,11,12,13,14,15}" by (simp add: upt_rec numeral_eq_Suc) 
  then show ?thesis unfolding hex_value_def hex_upper_def by auto
qed

lemma percent_decode_percent_byte:
  assumes "b < 256"
  shows "percent_decode (percent_byte b @ rest) = b # percent_decode rest"
proof -
  from assms have "b div 16 < 16" by simp
  moreover have "b mod 16 < 16" by simp
  ultimately show ?thesis
    using assms by (simp add: percent_byte_code hex_value_upper)
qed

lemma percent_decode_bytes:
  "\<forall>b\<in>set bs. b < 256 \<Longrightarrow>
   percent_decode (concat (map percent_byte bs) @ rest) = bs @ percent_decode rest"
  by (induction bs) (simp_all add: percent_decode_percent_byte)

lemma utf8_encode_safe: "in_safe_chars c \<Longrightarrow> utf8_encode c = Inr [c]"
  using in_safe_chars_cases [of c] by (simp add: utf8_encode_def)

lemma percent_decode_safe:
  assumes "in_safe_chars c"
  shows "percent_decode (char_of c # rest) = c # percent_decode rest"
proof -
  from assms have c: "c < 128" "c \<noteq> 37" using in_safe_chars_cases by blast+
  then have "of_char (char_of c :: char) = c" by simp
  moreover have "char_of c \<noteq> CHR ''%''"
  proof
    assume "char_of c = CHR ''%''"
    then have "of_char (char_of c :: char) = (of_char CHR ''%'' :: nat)" by simp
    with c show False by simp
  qed
  ultimately show ?thesis by simp
qed

lemma percent_decode_spec_encode_char:
  assumes "unicode_scalar c"
  shows "percent_decode (spec_encode_char c @ rest) =
         (case utf8_encode c of Inr bs \<Rightarrow> bs | Inl _ \<Rightarrow> []) @ percent_decode rest"
proof (cases "in_safe_chars c")
  case True
  then show ?thesis
    by (simp add: spec_encode_char_code percent_decode_safe utf8_encode_safe
             del: percent_decode.simps)
next
  case False
  from utf8_encode_scalar [OF assms] obtain bs
    where bs: "utf8_encode c = Inr bs" "\<forall>b\<in>set bs. b < 256" by blast
  with False show ?thesis
    by (simp add: spec_encode_char_code percent_decode_bytes)
qed

lemma urlencode_loop_eq:
  "list_all unicode_scalar t \<Longrightarrow>
   urlencode_loop acc t = Inr (acc @ concat (map spec_encode_char t))"
proof (induction t arbitrary: acc)
  case Nil
  then show ?case by simp
next
  case (Cons c t)
  then have c: "unicode_scalar c" and rest: "list_all unicode_scalar t" by simp_all
  show ?case
  proof (cases "in_safe_chars c")
    case True
    then show ?thesis using Cons.IH [OF rest] by (simp add: spec_encode_char_code)
  next
    case False
    from utf8_encode_scalar [OF c] obtain bs
      where bs: "utf8_encode c = Inr bs" "\<forall>b\<in>set bs. b < 256" by blast
    with False show ?thesis
      using Cons.IH [OF rest] by (simp add: spec_encode_char_code encode_bytes_percent)
  qed
qed

lemma percent_decode_concat:
  "list_all unicode_scalar t \<Longrightarrow>
   percent_decode (concat (map spec_encode_char t)) = utf8_bytes_of t"
  by (induction t) (simp_all add: utf8_bytes_of_def percent_decode_spec_encode_char)

lemma safe_chars_examples: "\<not> in_safe_chars 0x4F60" "\<not> in_safe_chars 0x20" "in_safe_chars 0x41"
  by (simp_all add: in_safe_chars_def safe_chars_def)

lemma utf8_encode_examples: "utf8_encode 0x4F60 = Inr [0xE4, 0xBD, 0xA0]" "utf8_encode 0x20 = Inr [0x20]"
  by (simp_all add: utf8_encode_def)

lemma percent_byte_examples: "percent_byte 0xE4 = ''%E4''" "percent_byte 0xBD = ''%BD''" "percent_byte 0xA0 = ''%A0''"
   "percent_byte 0x20 = ''%20''"
  by (simp_all add: percent_byte_code hex_upper_def)

lemma char_of_A: "char_of (0x41::nat) = CHR ''A''"
  by code_simp

lemma spec_encode_example: "concat (map spec_encode_char [0x4F60, 0x20, 0x41]) = ''%E4%BD%A0%20A''"
  by (simp add: spec_encode_char_code safe_chars_examples utf8_encode_examples percent_byte_examples char_of_A)

lemma utf8_bytes_of_example: "utf8_bytes_of [0x4F60, 0x20, 0x41] = [0xE4, 0xBD, 0xA0, 0x20, 0x41]"
  by (simp add: utf8_bytes_of_def utf8_encode_def)

text \<open>
  Claim C5. On every string of Unicode scalar values \<open>_urlencode_chinese\<close> returns the
  concatenation, character by character, of: the character itself when it is one of the
  unreserved ASCII characters, and otherwise its UTF-8 bytes, each written \<open>%XX\<close> with
  two upper-case hexadecimal digits. Percent-decoding that result gives back the UTF-8
  byte sequence of the string.
\<close>

theorem C5_urlencode_roundtrip:
  assumes "list_all unicode_scalar t"
  shows "urlencode_chinese t = Inr (concat (map spec_encode_char t))
       \<and> percent_decode (concat (map spec_encode_char t)) = utf8_bytes_of t"
  using assms by (simp add: urlencode_chinese_def urlencode_loop_eq percent_decode_concat)

theorem C5_urlencode_roundtrip_witness:
  "list_all unicode_scalar [0x4F60, 0x20, 0x41]
   \<and> urlencode_chinese [0x4F60, 0x20, 0x41] = Inr ''%E4%BD%A0%20A''
   \<and> percent_decode ''%E4%BD%A0%20A'' = [0xE4, 0xBD, 0xA0, 0x20, 0x41]"
proof -
  have h: "list_all unicode_scalar [0x4F60, 0x20, 0x41]"
    by (simp add: unicode_scalar_def)
  from C5_urlencode_roundtrip [OF h] show ?thesis
    unfolding spec_encode_example utf8_bytes_of_example using h by blast
qed

section \<open>Properties of the glyph fetch and its cache\<close>

lemma fetch_hit:
  "chinese_font_cache self (c, fs) = Some d \<Longrightarrow>
   fetch_single_char_bitmap net self c fs = (Some d, self)"
  by (simp add: fetch_single_char_bitmap_def)

lemma fetch_Some_cached:
  "fetch_single_char_bitmap net self c fs = (Some g, self') \<Longrightarrow>
   chinese_font_cache self' (c, fs) = Some g"
  by (auto simp: fetch_single_char_bitmap_def Let_def
           split: option.splits sum.splits http_outcome.splits if_splits json.splits)

lemma fetch_None_cache:
  "fetch_single_char_bitmap net self c fs = (None, self') \<Longrightarrow>
   chinese_font_cache self' = chinese_font_cache self
   \<and> chinese_font_cache self (c, fs) = None"
  by (auto simp: fetch_single_char_bitmap_def Let_def
           split: option.splits sum.splits http_outcome.splits if_splits json.splits)

lemma fetch_miss_success:
  assumes "chinese_font_cache self (c, fs) = None"
    and "urlencode_chinese [c] = Inr enc"
    and "net (length (requests_sent self)) (request_url self enc fs) = Response 200 (Some (JObj d))"
    and "truthy (dict_get d ''success'' (JBool False))"
  shows "fetch_single_char_bitmap net self c fs =
           (Some d, self\<lparr>requests_sent := requests_sent self @ [request_url self enc fs],
                         chinese_font_cache := (chinese_font_cache self)((c, fs) \<mapsto> d)\<rparr>)"
  using assms by (simp add: fetch_single_char_bitmap_def Let_def request_url_def)

text \<open>
  Claim C4. When \<open>_fetch_single_char_bitmap\<close> returns a glyph, the glyph is in the cache
  under the key \<open>(char, font_size)\<close> on return, and a further call with the same key,
  whatever the network does, returns the same glyph and leaves the whole state, the
  record of requests included, as it is: no request is sent. When the call fails the
  cache is as before, and a further call whose request the network answers with a
  successful reply returns that reply's glyph.
\<close>

theorem C4_get_or_fetch_idempotent:
  "(fetch_single_char_bitmap net self c fs = (Some g, self') \<longrightarrow>
      chinese_font_cache self' (c, fs) = Some g
      \<and> (\<forall>net'. fetch_single_char_bitmap net' self' c fs = (Some g, self')))
   \<and> (fetch_single_char_bitmap net self c fs = (None, self') \<longrightarrow>
      chinese_font_cache self' = chinese_font_cache self
      \<and> (\<forall>net' enc d.
            urlencode_chinese [c] = Inr enc
            \<and> net' (length (requests_sent self')) (request_url self' enc fs)
                = Response 200 (Some (JObj d))
            \<and> truthy (dict_get d ''success'' (JBool False))
            \<longrightarrow> fst (fetch_single_char_bitmap net' self' c fs) = Some d))"
proof (intro conjI impI allI)
  assume a: "fetch_single_char_bitmap net self c fs = (Some g, self')"
  then show "chinese_font_cache self' (c, fs) = Some g" by (rule fetch_Some_cached)
  then show "fetch_single_char_bitmap net' self' c fs = (Some g, self')" for net'
    by (rule fetch_hit)
next
  assume a: "fetch_single_char_bitmap net self c fs = (None, self')"
  then show "chinese_font_cache self' = chinese_font_cache self"
    using fetch_None_cache by blast
next
  fix net' enc d
  assume a: "fetch_single_char_bitmap net self c fs = (None, self')"
    and b: "urlencode_chinese [c] = Inr enc
            \<and> net' (length (requests_sent self')) (request_url self' enc fs)
                = Response 200 (Some (JObj d))
            \<and> truthy (dict_get d ''success'' (JBool False))"
  from a have "chinese_font_cache self' (c, fs) = None"
    using fetch_None_cache by metis
  with b show "fst (fetch_single_char_bitmap net' self' c fs) = Some d"
    by (simp add: fetch_miss_success)
qed

lemma urlencode_A: "urlencode_chinese [0x41] = Inr ''A''"
  by (simp add: urlencode_chinese_def safe_chars_examples char_of_A)

lemma str_int_24: "str_int 24 = ''24''"
  by (simp add: str_int_def)

lemma fetch_flaky_first:
  "fetch_single_char_bitmap flaky_network oled_0 0x41 24 = (None, oled_1)"
  by (simp add: fetch_single_char_bitmap_def urlencode_A request_url_def str_int_24
                init_oled_def flaky_network_def oled_0_def oled_1_def url_A_def)

lemma fetch_flaky_second:
  "fetch_single_char_bitmap flaky_network oled_1 0x41 24 = (Some glyph_A, oled_2)"
  by (simp add: fetch_single_char_bitmap_def urlencode_A request_url_def str_int_24
                init_oled_def flaky_network_def dict_get_def glyph_A_def
                oled_0_def oled_1_def oled_2_def url_A_def)

theorem C4_get_or_fetch_idempotent_witness:
  "fetch_single_char_bitmap flaky_network oled_0 0x41 24 = (None, oled_1)
   \<and> chinese_font_cache oled_1 = chinese_font_cache oled_0
   \<and> fetch_single_char_bitmap flaky_network oled_1 0x41 24 = (Some glyph_A, oled_2)
   \<and> chinese_font_cache oled_2 (0x41, 24) = Some glyph_A
   \<and> fetch_single_char_bitmap dead_network oled_2 0x41 24 = (Some glyph_A, oled_2)"
  using C4_get_or_fetch_idempotent [of flaky_network oled_0 "0x41" 24 glyph_A oled_1]
        C4_get_or_fetch_idempotent [of flaky_network oled_1 "0x41" 24 glyph_A oled_2]
        fetch_flaky_first fetch_flaky_second
  by simp

text \<open>
  Claim C6, as amended. On a cache miss \<open>_fetch_single_char_bitmap\<close> returns a glyph
  exactly when the status is 200, the body decodes to a JSON object and the object's
  \<open>success\<close> is true; the glyph is that object as received. In every other case the
  result is \<open>None\<close>. The fields \<open>bitmap\<close>, \<open>width\<close> and \<open>height\<close> play no part.
\<close>

theorem C6_fetch_accepts_unvalidated:
  assumes "chinese_font_cache self (c, fs) = None"
  shows "fst (fetch_single_char_bitmap net self c fs) = Some g \<longleftrightarrow> fetch_accepts net self c fs g"
  using assms unfolding fetch_accepts_def
  by (auto simp: fetch_single_char_bitmap_def Let_def
           split: option.splits sum.splits http_outcome.splits if_splits json.splits)

text \<open>
  Claim C6 as stated fails: a reply with status 200 and \<open>success = true\<close> that has no
  \<open>bitmap\<close> field is returned as a glyph.
\<close>

theorem C6_inconsistent_glyph_returned:
  "fst (fetch_single_char_bitmap unchecked_network oled_0 0x41 24) = Some glyph_without_bitmap
   \<and> \<not> glyph_consistent glyph_without_bitmap"
  by (simp add: fetch_single_char_bitmap_def urlencode_A request_url_def
                init_oled_def unchecked_network_def dict_get_def glyph_without_bitmap_def
                oled_0_def glyph_consistent_def json_rows_def)

theorem C6_fetch_accepts_unvalidated_witness:
  "chinese_font_cache oled_0 (0x41, 24) = None
   \<and> fetch_accepts unchecked_network oled_0 0x41 24 glyph_without_bitmap
   \<and> fst (fetch_single_char_bitmap unchecked_network oled_0 0x41 24) = Some glyph_without_bitmap"
proof -
  have h: "chinese_font_cache oled_0 (0x41, 24) = None"
    by (simp add: oled_0_def init_oled_def)
  have a: "fetch_accepts unchecked_network oled_0 0x41 24 glyph_without_bitmap"
    by (simp add: fetch_accepts_def urlencode_A unchecked_network_def dict_get_def
                  glyph_without_bitmap_def)
  from C6_fetch_accepts_unvalidated [OF h, of unchecked_network glyph_without_bitmap] a h
  show ?thesis by simp
qed

section \<open>Properties of the two loops of the compositor\<close>

lemma fetch_result_success:
  assumes "cache_ok self" and "fetch_single_char_bitmap net self c fs = (r, self1)"
  shows "cache_ok self1 \<and> (\<forall>d. r = Some d \<longrightarrow> truthy (dict_get d ''success'' (JBool False)))"
  using assms unfolding cache_ok_def
  by (auto simp: fetch_single_char_bitmap_def Let_def
           split: option.splits sum.splits http_outcome.splits if_splits json.splits)

lemma truthy_success_item:
  assumes "truthy (dict_get d ''success'' (JBool False))"
  shows "d \<noteq> [] \<and> (\<exists>ok. dict_item d ''success'' = Inr ok \<and> truthy ok)"
  using assms by (auto simp: dict_get_def dict_item_def split: option.splits)

lemma has_dims_dest:
  assumes "has_dims d"
  shows "glyph_dim d ''width'' = Inr (glyph_width d) \<and> glyph_dim d ''height'' = Inr (glyph_height d)"
  using assms by (auto simp: has_dims_def glyph_width_def glyph_height_def split: sum.splits)

lemma fetch_prefix_success:
  "cache_ok self \<Longrightarrow> fetch_prefix net fs t self = (gs, rest, self1) \<Longrightarrow>
   list_all (\<lambda>d. truthy (dict_get d ''success'' (JBool False))) gs"
proof (induction t arbitrary: self gs)
  case Nil
  then show ?case by simp
next
  case (Cons c cs)
  obtain r s1 where f: "fetch_single_char_bitmap net self c fs = (r, s1)"
    by (cases "fetch_single_char_bitmap net self c fs")
  from fetch_result_success [OF Cons.prems(1) f]
  have ok1: "cache_ok s1" and rd: "\<And>d. r = Some d \<Longrightarrow> truthy (dict_get d ''success'' (JBool False))"
    by blast+
  show ?case
  proof (cases r)
    case None
    with f Cons.prems(2) show ?thesis by simp
  next
    case (Some g)
    obtain gs' rest' s2 where p: "fetch_prefix net fs cs s1 = (gs', rest', s2)"
      by (cases "fetch_prefix net fs cs s1") auto
    with f Some Cons.prems(2) have gs: "gs = g # gs'" and "rest = rest'" and "self1 = s2"
      by auto
    with Cons.IH [OF ok1] p have "list_all (\<lambda>d. truthy (dict_get d ''success'' (JBool False))) gs'"
      by simp
    with gs rd [OF Some] show ?thesis by simp
  qed
qed

lemma fetch_prefix_shape:
  "fetch_prefix net fs t self = (gs, rest, self1) \<Longrightarrow>
   t = take (length gs) t @ rest \<and> length gs + length rest = length t"
proof (induction t arbitrary: self gs)
  case Nil
  then show ?case by simp
next
  case (Cons c cs)
  show ?case
  proof (cases "fetch_single_char_bitmap net self c fs")
    case (Pair r s1)
    show ?thesis
    proof (cases r)
      case None
      with Pair Cons.prems show ?thesis by auto
    next
      case (Some g)
      obtain gs' rest' s2 where p: "fetch_prefix net fs cs s1 = (gs', rest', s2)"
        by (cases "fetch_prefix net fs cs s1") auto
      with Pair Some Cons.prems have eqs: "gs = g # gs'" "rest = rest'" "self1 = s2" by auto
      with p have "fetch_prefix net fs cs s1 = (gs', rest, self1)" by simp
      from Cons.IH [OF this] eqs show ?thesis by simp
    qed
  qed
qed

lemma fetch_loop_prefix:
  "fetch_prefix net fs t self = (gs, rest, self1) \<Longrightarrow>
   list_all (\<lambda>d. truthy (dict_get d ''success'' (JBool False))) gs \<Longrightarrow>
   list_all has_dims gs \<Longrightarrow>
   fetch_loop net fs t self acc tw mh =
     (if rest = []
      then Inr (Some (acc @ gs, tw + sum_list (map glyph_width gs),
                      foldl max mh (map glyph_height gs)))
      else Inr None, self1)"
proof (induction t arbitrary: self gs acc tw mh)
  case Nil
  then show ?case by simp
next
  case (Cons c cs)
  show ?case
  proof (cases "fetch_single_char_bitmap net self c fs")
    case (Pair r s1)
    show ?thesis
    proof (cases r)
      case None
      with Pair Cons.prems show ?thesis by auto
    next
      case (Some g)
      obtain gs' rest' s2 where p: "fetch_prefix net fs cs s1 = (gs', rest', s2)"
        by (cases "fetch_prefix net fs cs s1") auto
      with Pair Some Cons.prems(1) have eqs: "gs = g # gs'" "rest = rest'" "self1 = s2" by auto
      with Cons.prems have g: "truthy (dict_get g ''success'' (JBool False))" "has_dims g"
        and gs': "list_all (\<lambda>d. truthy (dict_get d ''success'' (JBool False))) gs'"
                 "list_all has_dims gs'"
        by simp_all
      from truthy_success_item [OF g(1)] obtain ok
        where ok: "g \<noteq> []" "dict_item g ''success'' = Inr ok" "truthy ok" by blast
      note dims = has_dims_dest [OF g(2)]
      have mx: "(if glyph_height g > mh then glyph_height g else mh) = max mh (glyph_height g)"
        by (simp add: max_def)
      from p eqs have p': "fetch_prefix net fs cs s1 = (gs', rest, self1)" by simp
      show ?thesis
        using Pair Some ok dims Cons.IH [OF p' gs'] eqs
        by (simp add: mx add.assoc)
    qed
  qed
qed

lemma foldl_max_Max: "foldl max (m::int) hs = Max (insert m (set hs))"
proof (induction hs arbitrary: m)
  case Nil
  then show ?case by simp
next
  case (Cons h hs)
  have "Max (insert (max m h) (set hs)) = Max (insert m (insert h (set hs)))"
    by (cases "set hs = {}") (simp_all add: max.assoc)
  with Cons show ?case by simp
qed

lemma foldl_max_zero:
  assumes "hs \<noteq> []" and "\<forall>h\<in>set hs. (0::int) \<le> h"
  shows "foldl max 0 hs = Max (set hs)"
proof -
  from assms obtain h where "h \<in> set hs" "0 \<le> h" by (cases hs) auto
  then have "Max (insert 0 (set hs)) = Max (set hs)"
    by (metis List.finite_set Max_ge Max_insert empty_iff max.absorb2 order_trans)
  then show ?thesis by (simp add: foldl_max_Max)
qed

lemma py_index_in:
  "0 \<le> i \<Longrightarrow> i < int (length xs) \<Longrightarrow> py_index xs i = Inr (xs ! nat i)"
  by (simp add: py_index_def py_norm_index_def)

lemma py_set2_in:
  assumes "grid_dims H W grid" "0 \<le> r" "r < int H" "0 \<le> c" "c < int W"
  shows "py_set2 grid r c v = Inr (grid[nat r := (grid ! nat r)[nat c := v]])"
proof -
  from assms have "nat r < length grid" by (simp add: grid_dims_def)
  with assms have "length (grid ! nat r) = W" by (simp add: grid_dims_def)
  with assms show ?thesis
    by (simp add: py_set2_def py_norm_index_def grid_dims_def)
qed

lemma grid_dims_update:
  assumes "grid_dims H W grid"
  shows "grid_dims H W (grid[i := (grid ! i)[j := v]])"
proof -
  have "length row = W" if "row \<in> set (grid[i := (grid ! i)[j := v]])" for row
  proof -
    from that have "row \<in> insert ((grid ! i)[j := v]) (set grid)"
      using set_update_subset_insert by fastforce
    moreover have "i < length grid \<Longrightarrow> length (grid ! i) = W"
      using assms by (simp add: grid_dims_def)
    moreover have "\<not> i < length grid \<Longrightarrow> grid[i := (grid ! i)[j := v]] = grid"
      by (simp add: list_update_beyond)
    ultimately show ?thesis using assms that by (cases "i < length grid") (auto simp: grid_dims_def)
  qed
  with assms show ?thesis by (simp add: grid_dims_def)
qed

lemma grid_update_nth:
  assumes "grid_dims H W grid" "i < H" "j < W" "r < H" "c < W"
  shows "grid[i := (grid ! i)[j := v]] ! r ! c = (if r = i \<and> c = j then v else grid ! r ! c)"
proof -
  from assms have "length grid = H" "length (grid ! i) = W" by (simp_all add: grid_dims_def)
  with assms show ?thesis by (simp add: nth_list_update)
qed

lemma blit_row_pointwise:
  assumes "grid_dims H W grid"
    and "json_index char_bitmap y = Inr (JArr ps)"
    and "0 \<le> yoff + y" "yoff + y < int H"
    and "\<forall>x\<in>set xs. 0 \<le> x \<and> x < int (length ps) \<and> 0 \<le> curx + x \<and> curx + x < int W"
  shows "\<exists>grid'. blit_row char_bitmap yoff curx y xs grid = Inr grid' \<and> grid_dims H W grid'
          \<and> (\<forall>r<H. \<forall>c<W. grid' ! r ! c =
               (if r = nat (yoff + y) \<and> (\<exists>x\<in>set xs. c = nat (curx + x) \<and> truthy (ps ! nat x))
                then 1 else grid ! r ! c))"
  using assms(1,5)
proof (induction xs arbitrary: grid)
  case Nil
  then show ?case by simp
next
  case (Cons x xs)
  then have x: "0 \<le> x" "x < int (length ps)" "0 \<le> curx + x" "curx + x < int W"
    and rest: "\<forall>x\<in>set xs. 0 \<le> x \<and> x < int (length ps) \<and> 0 \<le> curx + x \<and> curx + x < int W"
    by simp_all
  have px: "json_index (JArr ps) x = Inr (ps ! nat x)"
    using x by (simp add: py_index_in)
  show ?case
  proof (cases "truthy (ps ! nat x)")
    case False
    from Cons.IH [OF Cons.prems(1) rest] obtain grid'
      where g: "blit_row char_bitmap yoff curx y xs grid = Inr grid'" "grid_dims H W grid'"
        "\<forall>r<H. \<forall>c<W. grid' ! r ! c =
               (if r = nat (yoff + y) \<and> (\<exists>x\<in>set xs. c = nat (curx + x) \<and> truthy (ps ! nat x))
                then 1 else grid ! r ! c)"
      by blast
    have "blit_row char_bitmap yoff curx y (x # xs) grid = Inr grid'"
      using assms(2) px False g(1) by simp
    moreover have "\<forall>r<H. \<forall>c<W. grid' ! r ! c =
               (if r = nat (yoff + y) \<and> (\<exists>x'\<in>set (x # xs). c = nat (curx + x') \<and> truthy (ps ! nat x'))
                then 1 else grid ! r ! c)"
      using g(3) False by auto
    ultimately show ?thesis using g(2) by blast
  next
    case True
    define g1 where "g1 = grid[nat (yoff + y) := (grid ! nat (yoff + y))[nat (curx + x) := 1]]"
    have s: "py_set2 grid (yoff + y) (curx + x) 1 = Inr g1"
      unfolding g1_def using py_set2_in [OF Cons.prems(1) assms(3,4) x(3,4)] .
    have d1: "grid_dims H W g1"
      unfolding g1_def by (rule grid_dims_update [OF Cons.prems(1)])
    have n1: "g1 ! r ! c = (if r = nat (yoff + y) \<and> c = nat (curx + x) then 1 else grid ! r ! c)"
      if "r < H" "c < W" for r c
      unfolding g1_def using grid_update_nth [OF Cons.prems(1) _ _ that] assms(3,4) x(3,4)
      by simp
    from Cons.IH [OF d1 rest] obtain grid'
      where g: "blit_row char_bitmap yoff curx y xs g1 = Inr grid'" "grid_dims H W grid'"
        "\<forall>r<H. \<forall>c<W. grid' ! r ! c =
               (if r = nat (yoff + y) \<and> (\<exists>x\<in>set xs. c = nat (curx + x) \<and> truthy (ps ! nat x))
                then 1 else g1 ! r ! c)"
      by blast
    have "blit_row char_bitmap yoff curx y (x # xs) grid = Inr grid'"
      using assms(2) px True s g(1) by simp
    moreover have "\<forall>r<H. \<forall>c<W. grid' ! r ! c =
               (if r = nat (yoff + y) \<and> (\<exists>x'\<in>set (x # xs). c = nat (curx + x') \<and> truthy (ps ! nat x'))
                then 1 else grid ! r ! c)"
      using g(3) n1 True by auto
    ultimately show ?thesis using g(2) by blast
  qed
qed

lemma py_range_set: "set (py_range n) = {x. 0 \<le> x \<and> x < n}"
proof -
  have "x \<in> int ` {0..<nat n} \<longleftrightarrow> 0 \<le> x \<and> x < n" for x
  proof
    assume "x \<in> int ` {0..<nat n}"
    then show "0 \<le> x \<and> x < n" by auto
  next
    assume a: "0 \<le> x \<and> x < n"
    then have "x = int (nat x)" "nat x \<in> {0..<nat n}" by auto
    then show "x \<in> int ` {0..<nat n}" by blast
  qed
  then show ?thesis by (auto simp: py_range_def)
qed

lemma blit_rows_pointwise:
  assumes "grid_dims H W grid"
    and "0 \<le> w" "0 \<le> curx" "curx + w \<le> int W"
    and "\<forall>y\<in>set ys. 0 \<le> y \<and> y < int (length rows) \<and> 0 \<le> yoff + y \<and> yoff + y < int H
           \<and> (\<exists>ps. rows ! nat y = JArr ps \<and> int (length ps) = w)"
  shows "\<exists>grid'. blit_rows (JArr rows) w yoff curx ys grid = Inr grid' \<and> grid_dims H W grid'
          \<and> (\<forall>r<H. \<forall>c<W. grid' ! r ! c =
               (if \<exists>y\<in>set ys. r = nat (yoff + y) \<and> curx \<le> int c \<and> int c < curx + w
                      \<and> json_pixel (JArr rows) (nat (int c - curx)) (nat y)
                then 1 else grid ! r ! c))"
  using assms(1,5)
proof (induction ys arbitrary: grid)
  case Nil
  then show ?case by simp
next
  case (Cons y ys)
  then have y: "0 \<le> y" "y < int (length rows)" "0 \<le> yoff + y" "yoff + y < int H"
    and rest: "\<forall>y\<in>set ys. 0 \<le> y \<and> y < int (length rows) \<and> 0 \<le> yoff + y \<and> yoff + y < int H
           \<and> (\<exists>ps. rows ! nat y = JArr ps \<and> int (length ps) = w)"
    by simp_all
  from Cons.prems(2) obtain ps where ps: "rows ! nat y = JArr ps" "int (length ps) = w"
    by auto
  have jy: "json_index (JArr rows) y = Inr (JArr ps)"
    using y ps by (simp add: py_index_in)
  have xs: "\<forall>x\<in>set (py_range w). 0 \<le> x \<and> x < int (length ps) \<and> 0 \<le> curx + x \<and> curx + x < int W"
    using assms(2,3,4) ps(2) by (auto simp: py_range_set)
  from blit_row_pointwise [OF Cons.prems(1) jy y(3,4) xs] obtain g1
    where g1: "blit_row (JArr rows) yoff curx y (py_range w) grid = Inr g1" "grid_dims H W g1"
      "\<forall>r<H. \<forall>c<W. g1 ! r ! c =
               (if r = nat (yoff + y) \<and> (\<exists>x\<in>set (py_range w). c = nat (curx + x) \<and> truthy (ps ! nat x))
                then 1 else grid ! r ! c)"
    by blast
  have row_y: "(\<exists>x\<in>set (py_range w). c = nat (curx + x) \<and> truthy (ps ! nat x)) \<longleftrightarrow>
               (curx \<le> int c \<and> int c < curx + w \<and> json_pixel (JArr rows) (nat (int c - curx)) (nat y))"
    for c
  proof
    assume "\<exists>x\<in>set (py_range w). c = nat (curx + x) \<and> truthy (ps ! nat x)"
    then obtain x where x: "0 \<le> x" "x < w" "c = nat (curx + x)" "truthy (ps ! nat x)"
      by (auto simp: py_range_set)
    with assms(3) have "int c - curx = x" by simp
    with x assms(3) ps show "curx \<le> int c \<and> int c < curx + w
        \<and> json_pixel (JArr rows) (nat (int c - curx)) (nat y)"
      by (simp add: json_pixel_def)
  next
    assume a: "curx \<le> int c \<and> int c < curx + w
        \<and> json_pixel (JArr rows) (nat (int c - curx)) (nat y)"
    define x where "x = int c - curx"
    with a have "0 \<le> x" "x < w" "c = nat (curx + x)" by simp_all
    moreover from a ps have "truthy (ps ! nat x)" by (simp add: json_pixel_def x_def)
    ultimately show "\<exists>x\<in>set (py_range w). c = nat (curx + x) \<and> truthy (ps ! nat x)"
      by (auto simp: py_range_set)
  qed
  from Cons.IH [OF g1(2) rest] obtain grid'
    where g: "blit_rows (JArr rows) w yoff curx ys g1 = Inr grid'" "grid_dims H W grid'"
      "\<forall>r<H. \<forall>c<W. grid' ! r ! c =
               (if \<exists>y\<in>set ys. r = nat (yoff + y) \<and> curx \<le> int c \<and> int c < curx + w
                      \<and> json_pixel (JArr rows) (nat (int c - curx)) (nat y)
                then 1 else g1 ! r ! c)"
    by blast
  have "blit_rows (JArr rows) w yoff curx (y # ys) grid = Inr grid'"
    using g1(1) g(1) by simp
  moreover have "\<forall>r<H. \<forall>c<W. grid' ! r ! c =
               (if \<exists>y'\<in>set (y # ys). r = nat (yoff + y') \<and> curx \<le> int c \<and> int c < curx + w
                      \<and> json_pixel (JArr rows) (nat (int c - curx)) (nat y')
                then 1 else grid ! r ! c)"
    using g(3) g1(3) row_y by auto
  ultimately show ?case using g(2) by blast
qed

lemma glyph_ok_dest:
  assumes "glyph_ok g"
  obtains rows where "dict_item g ''bitmap'' = Inr (JArr rows)"
    and "dict_get g ''bitmap'' JNull = JArr rows"
    and "glyph_dim g ''width'' = Inr (glyph_width g)"
    and "glyph_dim g ''height'' = Inr (glyph_height g)"
    and "0 \<le> glyph_width g" and "int (length rows) = glyph_height g"
    and "\<forall>r\<in>set rows. \<exists>ps. r = JArr ps \<and> int (length ps) = glyph_width g"
proof -
  from assms have c: "glyph_consistent g" and w0: "0 \<le> glyph_width g"
    by (simp_all add: glyph_ok_def)
  from c obtain rows w h where f0: "json_rows (map_of g ''bitmap'') = Some rows"
      "json_int_of (map_of g ''width'') = Some w" "json_int_of (map_of g ''height'') = Some h"
      and f45: "int (length rows) = h" "list_all (row_has_width w) rows"
    by (auto simp: glyph_consistent_def split: option.splits)
  from f0(1) have f1: "map_of g ''bitmap'' = Some (JArr rows)"
    by (auto simp: json_rows_def split: option.splits json.splits)
  from f0(2) have f2: "map_of g ''width'' = Some (JInt w)"
    by (auto simp: json_int_of_def split: option.splits json.splits)
  from f0(3) have f3: "map_of g ''height'' = Some (JInt h)"
    by (auto simp: json_int_of_def split: option.splits json.splits)
  note f = f1 f2 f3 f45
  have w: "glyph_dim g ''width'' = Inr w" "glyph_width g = w"
    using f(2) by (simp_all add: glyph_dim_def glyph_width_def dict_item_def)
  have h: "glyph_dim g ''height'' = Inr h" "glyph_height g = h"
    using f(3) by (simp_all add: glyph_dim_def glyph_height_def dict_item_def)
  have r: "\<forall>r\<in>set rows. \<exists>ps. r = JArr ps \<and> int (length ps) = w"
  proof
    fix r assume "r \<in> set rows"
    with f(5) have "row_has_width w r" by (simp add: list_all_iff)
    then show "\<exists>ps. r = JArr ps \<and> int (length ps) = w"
      by (cases r) (simp_all add: row_has_width_def)
  qed
  show ?thesis
    using that [of rows] f(1,4) w h r w0 by (simp add: dict_item_def dict_get_def)
qed

lemma blit_glyph_pointwise:
  assumes "grid_dims (nat H) W grid" and "glyph_ok g" and "glyph_height g \<le> H"
    and "0 \<le> curx" and "curx + glyph_width g \<le> int W"
    and "dict_item g ''bitmap'' = Inr b"
  shows "\<exists>grid'. blit_rows b (glyph_width g) (H - glyph_height g) curx
                    (py_range (glyph_height g)) grid = Inr grid'
          \<and> grid_dims (nat H) W grid'
          \<and> (\<forall>r<nat H. \<forall>c<W. grid' ! r ! c =
               (if curx \<le> int c \<and> int c < curx + glyph_width g \<and> H - glyph_height g \<le> int r
                   \<and> glyph_pixel g (nat (int c - curx)) (nat (int r - (H - glyph_height g)))
                then 1 else grid ! r ! c))"
proof -
  from assms(2) obtain rows where g: "dict_item g ''bitmap'' = Inr (JArr rows)"
    "dict_get g ''bitmap'' JNull = JArr rows"
    "0 \<le> glyph_width g" "int (length rows) = glyph_height g"
    "\<forall>r\<in>set rows. \<exists>ps. r = JArr ps \<and> int (length ps) = glyph_width g"
    by (rule glyph_ok_dest)
  from g(1) assms(6) have b: "b = JArr rows" by simp
  define h where "h = glyph_height g"
  define w where "w = glyph_width g"
  have h0: "0 \<le> h" using g(4) h_def by simp
  have ys: "\<forall>y\<in>set (py_range h). 0 \<le> y \<and> y < int (length rows) \<and> 0 \<le> (H - h) + y
              \<and> (H - h) + y < int (nat H)
              \<and> (\<exists>ps. rows ! nat y = JArr ps \<and> int (length ps) = w)"
  proof
    fix y assume "y \<in> set (py_range h)"
    then have y: "0 \<le> y" "y < h" by (simp_all add: py_range_set)
    with g(4) have "nat y < length rows" by (simp add: h_def)
    then have "rows ! nat y \<in> set rows" by simp
    with g(5) have "\<exists>ps. rows ! nat y = JArr ps \<and> int (length ps) = w" by (simp add: w_def)
    with y g(4) assms(3) show "0 \<le> y \<and> y < int (length rows) \<and> 0 \<le> (H - h) + y
              \<and> (H - h) + y < int (nat H)
              \<and> (\<exists>ps. rows ! nat y = JArr ps \<and> int (length ps) = w)"
      by (simp add: h_def)
  qed
  from blit_rows_pointwise [OF assms(1) g(3) [folded w_def] assms(4) assms(5) [folded w_def] ys]
  obtain grid' where r: "blit_rows (JArr rows) w (H - h) curx (py_range h) grid = Inr grid'"
      "grid_dims (nat H) W grid'"
      "\<forall>r<nat H. \<forall>c<W. grid' ! r ! c =
               (if \<exists>y\<in>set (py_range h). r = nat ((H - h) + y) \<and> curx \<le> int c \<and> int c < curx + w
                      \<and> json_pixel (JArr rows) (nat (int c - curx)) (nat y)
                then 1 else grid ! r ! c)"
    by blast
  have eq: "(\<exists>y\<in>set (py_range h). r = nat ((H - h) + y) \<and> curx \<le> int c \<and> int c < curx + w
                      \<and> json_pixel (JArr rows) (nat (int c - curx)) (nat y))
        \<longleftrightarrow> (curx \<le> int c \<and> int c < curx + w \<and> H - h \<le> int r
                   \<and> glyph_pixel g (nat (int c - curx)) (nat (int r - (H - h))))"
    if "r < nat H" for r c
  proof
    assume "\<exists>y\<in>set (py_range h). r = nat ((H - h) + y) \<and> curx \<le> int c \<and> int c < curx + w
                      \<and> json_pixel (JArr rows) (nat (int c - curx)) (nat y)"
    then obtain y where y: "0 \<le> y" "y < h" "r = nat ((H - h) + y)" "curx \<le> int c"
        "int c < curx + w" "json_pixel (JArr rows) (nat (int c - curx)) (nat y)"
      by (auto simp: py_range_set)
    from y(1,3) assms(3) have "int r - (H - h) = y" by (simp add: h_def)
    with y assms(3) show "curx \<le> int c \<and> int c < curx + w \<and> H - h \<le> int r
                   \<and> glyph_pixel g (nat (int c - curx)) (nat (int r - (H - h)))"
      by (simp add: glyph_pixel_def g(2) h_def)
  next
    assume a: "curx \<le> int c \<and> int c < curx + w \<and> H - h \<le> int r
                   \<and> glyph_pixel g (nat (int c - curx)) (nat (int r - (H - h)))"
    define y where "y = int r - (H - h)"
    from a that have "0 \<le> y" "y < h" "r = nat ((H - h) + y)" by (simp_all add: y_def)
    moreover from a have "json_pixel (JArr rows) (nat (int c - curx)) (nat y)"
      by (simp add: glyph_pixel_def g(2) y_def)
    ultimately show "\<exists>y\<in>set (py_range h). r = nat ((H - h) + y) \<and> curx \<le> int c \<and> int c < curx + w
                      \<and> json_pixel (JArr rows) (nat (int c - curx)) (nat y)"
      using a by (auto simp: py_range_set)
  qed
  from r(3) eq have "\<forall>r<nat H. \<forall>c<W. grid' ! r ! c =
               (if curx \<le> int c \<and> int c < curx + w \<and> H - h \<le> int r
                   \<and> glyph_pixel g (nat (int c - curx)) (nat (int r - (H - h)))
                then 1 else grid ! r ! c)"
    by simp
  with r(1,2) show ?thesis unfolding b h_def w_def by blast
qed

lemma cursor_at_simps:
  "cursor_at gs 0 = 0" "cursor_at (g # gs) (Suc i) = glyph_width g + cursor_at gs i"
  by (simp_all add: cursor_at_def)

lemma ex_less_Cons:
  "(\<exists>i<length (g # gs). P i) \<longleftrightarrow> P 0 \<or> (\<exists>i<length gs. P (Suc i))"
proof
  assume "\<exists>i<length (g # gs). P i"
  then obtain i where i: "i < length (g # gs)" "P i" by blast
  then show "P 0 \<or> (\<exists>i<length gs. P (Suc i))"
    by (cases i) auto
next
  assume "P 0 \<or> (\<exists>i<length gs. P (Suc i))"
  then show "\<exists>i<length (g # gs). P i" by auto
qed

lemma sum_widths_nonneg:
  "list_all glyph_ok gs \<Longrightarrow> 0 \<le> sum_list (map glyph_width gs)"
  by (induction gs) (simp_all add: glyph_ok_def)

lemma stitch_pointwise:
  assumes "grid_dims (nat H) W grid" and "list_all glyph_ok gs"
    and "\<forall>g\<in>set gs. glyph_height g \<le> H"
    and "0 \<le> curx" and "curx + sum_list (map glyph_width gs) \<le> int W"
  shows "\<exists>grid'. stitch_loop H curx gs grid = Inr grid' \<and> grid_dims (nat H) W grid'
          \<and> (\<forall>r<nat H. \<forall>c<W. grid' ! r ! c =
               (if \<exists>i<length gs. glyph_covers H (curx + cursor_at gs i) (gs ! i) c r
                then 1 else grid ! r ! c))"
  using assms
proof (induction gs arbitrary: grid curx)
  case Nil
  then show ?case by simp
next
  case (Cons g gs)
  then have g: "glyph_ok g" "glyph_height g \<le> H" and gs: "list_all glyph_ok gs"
    "\<forall>g\<in>set gs. glyph_height g \<le> H"
    by simp_all
  from g(1) obtain rows where b: "dict_item g ''bitmap'' = Inr (JArr rows)"
    and dw: "glyph_dim g ''width'' = Inr (glyph_width g)"
    and dh: "glyph_dim g ''height'' = Inr (glyph_height g)"
    and w0: "0 \<le> glyph_width g"
    by (rule glyph_ok_dest)
  from sum_widths_nonneg [OF gs(1)] Cons.prems(5)
  have fit: "curx + glyph_width g \<le> int W"
    and fit': "(curx + glyph_width g) + sum_list (map glyph_width gs) \<le> int W"
    by simp_all
  from blit_glyph_pointwise [OF Cons.prems(1) g Cons.prems(4) fit b] obtain g1
    where g1: "blit_rows (JArr rows) (glyph_width g) (H - glyph_height g) curx
                    (py_range (glyph_height g)) grid = Inr g1"
      "grid_dims (nat H) W g1"
      "\<forall>r<nat H. \<forall>c<W. g1 ! r ! c =
               (if curx \<le> int c \<and> int c < curx + glyph_width g \<and> H - glyph_height g \<le> int r
                   \<and> glyph_pixel g (nat (int c - curx)) (nat (int r - (H - glyph_height g)))
                then 1 else grid ! r ! c)"
    by blast
  have c0: "0 \<le> curx + glyph_width g" using Cons.prems(4) w0 by simp
  from Cons.IH [OF g1(2) gs c0 fit'] obtain grid'
    where r: "stitch_loop H (curx + glyph_width g) gs g1 = Inr grid'"
      "grid_dims (nat H) W grid'"
      "\<forall>r<nat H. \<forall>c<W. grid' ! r ! c =
               (if \<exists>i<length gs. glyph_covers H (curx + glyph_width g + cursor_at gs i) (gs ! i) c r
                then 1 else g1 ! r ! c)"
    by blast
  have "stitch_loop H curx (g # gs) grid = Inr grid'"
    using b dw dh g1(1) r(1) by simp
  moreover have "\<forall>r<nat H. \<forall>c<W. grid' ! r ! c =
               (if \<exists>i<length (g # gs). glyph_covers H (curx + cursor_at (g # gs) i) ((g # gs) ! i) c r
                then 1 else grid ! r ! c)"
  proof (intro allI impI)
    fix r c assume rc: "r < nat H" "c < W"
    from g1(3) rc have a: "g1 ! r ! c = (if glyph_covers H curx g c r then 1 else grid ! r ! c)"
      by (simp add: glyph_covers_def)
    from r(3) rc have b: "grid' ! r ! c =
               (if \<exists>i<length gs. glyph_covers H (curx + glyph_width g + cursor_at gs i) (gs ! i) c r
                then 1 else g1 ! r ! c)"
      by simp
    have e: "(\<exists>i<length (g # gs). glyph_covers H (curx + cursor_at (g # gs) i) ((g # gs) ! i) c r)
          \<longleftrightarrow> glyph_covers H curx g c r
              \<or> (\<exists>i<length gs. glyph_covers H (curx + glyph_width g + cursor_at gs i) (gs ! i) c r)"
      unfolding ex_less_Cons by (simp add: cursor_at_simps add.assoc)
    show "grid' ! r ! c =
               (if \<exists>i<length (g # gs). glyph_covers H (curx + cursor_at (g # gs) i) ((g # gs) ! i) c r
                then 1 else grid ! r ! c)"
      unfolding e a b by auto
  qed
  ultimately show ?case using r(2) by blast
qed

lemma glyph_ok_fetchable:
  assumes "list_all glyph_ok gs"
  shows "list_all (\<lambda>d. truthy (dict_get d ''success'' (JBool False))) gs"
    and "list_all has_dims gs"
    and "\<forall>g\<in>set gs. 0 \<le> glyph_height g \<and> 0 \<le> glyph_width g"
proof -
  have "truthy (dict_get g ''success'' (JBool False)) \<and> has_dims g
        \<and> 0 \<le> glyph_height g \<and> 0 \<le> glyph_width g" if "glyph_ok g" for g
    using that
  proof (rule glyph_ok_dest)
    fix rows
    assume d: "glyph_dim g ''width'' = Inr (glyph_width g)"
      "glyph_dim g ''height'' = Inr (glyph_height g)" "0 \<le> glyph_width g"
      "int (length rows) = glyph_height g"
    from d(4) have "0 \<le> glyph_height g" by (metis of_nat_0_le_iff)
    with d that show ?thesis by (simp add: has_dims_def glyph_ok_def)
  qed
  with assms show "list_all (\<lambda>d. truthy (dict_get d ''success'' (JBool False))) gs"
    and "list_all has_dims gs"
    and "\<forall>g\<in>set gs. 0 \<le> glyph_height g \<and> 0 \<le> glyph_width g"
    by (auto simp: list_all_iff)
qed

lemma new_full_bitmap_dims:
  "grid_dims (nat mh) (nat tw) (new_full_bitmap tw mh)"
  by (simp add: grid_dims_def new_full_bitmap_def)

lemma new_full_bitmap_nth:
  "r < nat mh \<Longrightarrow> c < nat tw \<Longrightarrow> new_full_bitmap tw mh ! r ! c = 0"
  by (simp add: new_full_bitmap_def)

lemma compose_ok:
  assumes "fetch_prefix net (actual_font_size self fsz) t self = (gs, [], self1)"
    and "gs \<noteq> []" and "list_all glyph_ok gs"
  shows "\<exists>full. fetch_font_bitmap net self t fsz =
           (Inr (Some (full_bitmap_data full (sum_list (map glyph_width gs))
                         (Max (set (map glyph_height gs))))), self1)
         \<and> grid_dims (nat (Max (set (map glyph_height gs))))
                     (nat (sum_list (map glyph_width gs))) full
         \<and> (\<forall>r<nat (Max (set (map glyph_height gs))). \<forall>c<nat (sum_list (map glyph_width gs)).
               full ! r ! c =
                 (if \<exists>i<length gs. glyph_covers (Max (set (map glyph_height gs)))
                                     (cursor_at gs i) (gs ! i) c r
                  then 1 else 0))"
proof -
  define Wt where "Wt = sum_list (map glyph_width gs)"
  define Hm where "Hm = Max (set (map glyph_height gs))"
  note f = glyph_ok_fetchable [OF assms(3)]
  have hm: "foldl max 0 (map glyph_height gs) = Hm"
    unfolding Hm_def using assms(2) f(3) by (intro foldl_max_zero) auto
  have loop: "fetch_loop net (actual_font_size self fsz) t self [] 0 0 =
                (Inr (Some (gs, Wt, Hm)), self1)"
    using fetch_loop_prefix [OF assms(1) f(1,2), of "[]" 0 0] hm by (simp add: Wt_def)
  have w0: "0 \<le> Wt" unfolding Wt_def by (rule sum_widths_nonneg [OF assms(3)])
  have le: "\<forall>g\<in>set gs. glyph_height g \<le> Hm"
    unfolding Hm_def by simp
  have fit: "0 + sum_list (map glyph_width gs) \<le> int (nat Wt)"
    using w0 by (simp add: Wt_def)
  from stitch_pointwise [OF new_full_bitmap_dims assms(3) le order_refl fit]
  obtain full where s: "stitch_loop Hm 0 gs (new_full_bitmap Wt Hm) = Inr full"
      "grid_dims (nat Hm) (nat Wt) full"
      "\<forall>r<nat Hm. \<forall>c<nat Wt. full ! r ! c =
               (if \<exists>i<length gs. glyph_covers Hm (0 + cursor_at gs i) (gs ! i) c r
                then 1 else new_full_bitmap Wt Hm ! r ! c)"
    by blast
  have "fetch_font_bitmap net self t fsz = (Inr (Some (full_bitmap_data full Wt Hm)), self1)"
    using loop s(1) assms(2) by (simp add: fetch_font_bitmap_def)
  moreover have "\<forall>r<nat Hm. \<forall>c<nat Wt. full ! r ! c =
               (if \<exists>i<length gs. glyph_covers Hm (cursor_at gs i) (gs ! i) c r then 1 else 0)"
  proof (intro allI impI)
    fix r c assume rc: "r < nat Hm" "c < nat Wt"
    with s(3) have "full ! r ! c =
               (if \<exists>i<length gs. glyph_covers Hm (0 + cursor_at gs i) (gs ! i) c r
                then 1 else new_full_bitmap Wt Hm ! r ! c)"
      by blast
    with rc show "full ! r ! c =
               (if \<exists>i<length gs. glyph_covers Hm (cursor_at gs i) (gs ! i) c r then 1 else 0)"
      by (simp only: new_full_bitmap_nth add_0)
  qed
  ultimately show ?thesis using s(2) unfolding Wt_def Hm_def by blast
qed

lemma urlencode_B: "urlencode_chinese [0x42] = Inr ''B''"
proof -
  have "in_safe_chars 0x42" by (simp add: in_safe_chars_def safe_chars_def)
  moreover have "char_of (0x42::nat) = CHR ''B''" by code_simp
  ultimately show ?thesis by (simp add: urlencode_chinese_def)
qed

lemma urlencode_C: "urlencode_chinese [0x43] = Inr ''C''"
proof -
  have "in_safe_chars 0x43" by (simp add: in_safe_chars_def safe_chars_def)
  moreover have "char_of (0x43::nat) = CHR ''C''" by code_simp
  ultimately show ?thesis by (simp add: urlencode_chinese_def)
qed

lemma fetch_font_A:
  "fetch_single_char_bitmap font_network oled_0 0x41 24 =
     (Some glyph_A, oled_0\<lparr>requests_sent := [url_A],
                            chinese_font_cache := [(0x41, 24) \<mapsto> glyph_A]\<rparr>)"
  by (simp add: fetch_single_char_bitmap_def urlencode_A request_url_def str_int_24
                init_oled_def font_network_def dict_get_def glyph_A_def
                oled_0_def url_A_def)

lemma fetch_font_B:
  "fetch_single_char_bitmap font_network
     (oled_0\<lparr>requests_sent := [url_A], chinese_font_cache := [(0x41, 24) \<mapsto> glyph_A]\<rparr>)
     0x42 24 = (Some glyph_B, oled_AB)"
  by (simp add: fetch_single_char_bitmap_def urlencode_B request_url_def str_int_24
                init_oled_def font_network_def dict_get_def glyph_B_def
                oled_0_def oled_AB_def url_A_def url_B_def)

lemma fetch_font_C:
  "fetch_single_char_bitmap font_network
     (oled_0\<lparr>requests_sent := [url_A], chinese_font_cache := [(0x41, 24) \<mapsto> glyph_A]\<rparr>)
     0x43 24 = (None, oled_AC)"
  by (simp add: fetch_single_char_bitmap_def urlencode_C request_url_def str_int_24
                init_oled_def font_network_def dict_get_def
                oled_0_def oled_AC_def url_A_def url_B_def url_C_def)

lemma actual_font_size_oled_0: "actual_font_size oled_0 None = 24"
  by (simp add: actual_font_size_def oled_0_def init_oled_def)

lemma fetch_prefix_AB:
  "fetch_prefix font_network 24 [0x41, 0x42] oled_0 = ([glyph_A, glyph_B], [], oled_AB)"
  by (simp add: fetch_font_A fetch_font_B)

lemma fetch_prefix_ACB:
  "fetch_prefix font_network 24 [0x41, 0x43, 0x42] oled_0 = ([glyph_A], [0x43, 0x42], oled_AC)"
  by (simp add: fetch_font_A fetch_font_C)

lemma glyph_A_dims: "glyph_width glyph_A = 2" "glyph_height glyph_A = 2"
  by (simp_all add: glyph_width_def glyph_height_def glyph_dim_def dict_item_def glyph_A_def)

lemma glyph_B_dims: "glyph_width glyph_B = 1" "glyph_height glyph_B = 3"
  by (simp_all add: glyph_width_def glyph_height_def glyph_dim_def dict_item_def glyph_B_def)

lemma glyph_ok_A: "glyph_ok glyph_A"
  unfolding glyph_ok_def glyph_A_dims
  by (simp add: glyph_A_def glyph_consistent_def json_rows_def json_int_of_def
                row_has_width_def dict_get_def)

lemma glyph_ok_B: "glyph_ok glyph_B"
  unfolding glyph_ok_def glyph_B_dims
  by (simp add: glyph_B_def glyph_consistent_def json_rows_def json_int_of_def
                row_has_width_def dict_get_def)

lemma has_dims_A: "has_dims glyph_A"
  by (simp add: has_dims_def glyph_dim_def dict_item_def glyph_A_def)

lemma cache_ok_oled_0: "cache_ok oled_0"
  by (simp add: cache_ok_def oled_0_def init_oled_def)

section \<open>Properties of the composed line\<close>

text \<open>
  Claim C1. When every glyph lookup of a non-empty line succeeds and the glyphs are
  glyphs of the data model, \<open>_fetch_font_bitmap\<close> returns a composite whose
  \<open>height\<close> is the greatest of the glyph heights and whose \<open>width\<close> is the sum
  of the glyph widths.
\<close>

theorem C1_composite_dimensions:
  assumes "fetch_prefix net (actual_font_size self fsz) t self = (gs, [], self1)"
    and "gs \<noteq> []" and "list_all glyph_ok gs"
  shows "\<exists>comp. fetch_font_bitmap net self t fsz = (Inr (Some comp), self1)
          \<and> dict_item comp ''height'' = Inr (JInt (Max (set (map glyph_height gs))))
          \<and> dict_item comp ''width'' = Inr (JInt (sum_list (map glyph_width gs)))"
proof -
  from compose_ok [OF assms] obtain full where
    "fetch_font_bitmap net self t fsz =
       (Inr (Some (full_bitmap_data full (sum_list (map glyph_width gs))
                     (Max (set (map glyph_height gs))))), self1)"
    by blast
  then show ?thesis by (simp add: full_bitmap_data_def dict_item_def)
qed

theorem C1_composite_dimensions_witness:
  "fetch_prefix font_network (actual_font_size oled_0 None) [0x41, 0x42] oled_0
     = ([glyph_A, glyph_B], [], oled_AB)
   \<and> list_all glyph_ok [glyph_A, glyph_B]
   \<and> (\<exists>comp. fetch_font_bitmap font_network oled_0 [0x41, 0x42] None = (Inr (Some comp), oled_AB)
          \<and> dict_item comp ''height'' = Inr (JInt 3)
          \<and> dict_item comp ''width'' = Inr (JInt 3))"
proof -
  have p: "fetch_prefix font_network (actual_font_size oled_0 None) [0x41, 0x42] oled_0
             = ([glyph_A, glyph_B], [], oled_AB)"
    by (simp only: actual_font_size_oled_0 fetch_prefix_AB)
  have ok: "list_all glyph_ok [glyph_A, glyph_B]"
    by (simp add: glyph_ok_A glyph_ok_B)
  have ne: "[glyph_A, glyph_B] \<noteq> []" by simp
  from C1_composite_dimensions [OF p ne ok] p ok show ?thesis
    by (simp add: glyph_A_dims glyph_B_dims)
qed

lemma composite_pixel:
  assumes "grid_dims Hn Wn full" "r < Hn" "c < Wn"
  shows "glyph_pixel (full_bitmap_data full tw mh) c r \<longleftrightarrow> full ! r ! c \<noteq> 0"
proof -
  from assms have "r < length full" "c < length (full ! r)" by (simp_all add: grid_dims_def)
  then show ?thesis
    by (simp add: glyph_pixel_def full_bitmap_data_def dict_get_def json_pixel_def)
qed

lemma cursor_fits:
  assumes "list_all glyph_ok gs" "i < length gs"
  shows "0 \<le> cursor_at gs i
       \<and> cursor_at gs i + glyph_width (gs ! i) \<le> sum_list (map glyph_width gs)"
proof -
  have split: "gs = take i gs @ gs ! i # drop (Suc i) gs"
    using assms(2) by (rule id_take_nth_drop)
  have a: "list_all glyph_ok (take i gs)" "list_all glyph_ok (drop (Suc i) gs)"
    using assms(1) by (auto simp: list_all_iff dest: in_set_takeD in_set_dropD)
  have "sum_list (map glyph_width gs) =
          sum_list (map glyph_width (take i gs)) + glyph_width (gs ! i)
          + sum_list (map glyph_width (drop (Suc i) gs))"
    by (subst split) simp
  with sum_widths_nonneg [OF a(1)] sum_widths_nonneg [OF a(2)] show ?thesis
    by (simp add: cursor_at_def)
qed

text \<open>
  Claim C2. In the composite of such a line the glyphs stand bottom-aligned, left to
  right from column 0, each starting where the widths of the glyphs before it end: a set
  pixel \<open>(lx, ly)\<close> of the \<open>i\<close>-th glyph, of height \<open>h\<close>, is set in the
  composite at column \<open>cursor + lx\<close> and row \<open>(max_height - h) + ly\<close>. No later
  glyph clears it: the composite's set pixels are exactly the pixels that some glyph
  puts there.
\<close>

theorem C2_bottom_aligned_blit:
  assumes "fetch_prefix net (actual_font_size self fsz) t self = (gs, [], self1)"
    and "gs \<noteq> []" and "list_all glyph_ok gs"
  shows "\<exists>comp. fetch_font_bitmap net self t fsz = (Inr (Some comp), self1)
          \<and> (\<forall>i lx ly. i < length gs \<and> lx < nat (glyph_width (gs ! i))
                \<and> ly < nat (glyph_height (gs ! i)) \<and> glyph_pixel (gs ! i) lx ly
                \<longrightarrow> glyph_pixel comp
                      (nat (cursor_at gs i) + lx)
                      (nat (Max (set (map glyph_height gs)) - glyph_height (gs ! i)) + ly))
          \<and> (\<forall>c r. c < nat (sum_list (map glyph_width gs))
                \<and> r < nat (Max (set (map glyph_height gs)))
                \<longrightarrow> (glyph_pixel comp c r \<longleftrightarrow>
                      (\<exists>i<length gs. glyph_covers (Max (set (map glyph_height gs)))
                                       (cursor_at gs i) (gs ! i) c r)))"
proof -
  define Wt where "Wt = sum_list (map glyph_width gs)"
  define Hm where "Hm = Max (set (map glyph_height gs))"
  from compose_ok [OF assms] obtain full where
    res: "fetch_font_bitmap net self t fsz = (Inr (Some (full_bitmap_data full Wt Hm)), self1)"
    and dims: "grid_dims (nat Hm) (nat Wt) full"
    and px: "\<forall>r<nat Hm. \<forall>c<nat Wt. full ! r ! c =
                 (if \<exists>i<length gs. glyph_covers Hm (cursor_at gs i) (gs ! i) c r then 1 else 0)"
    unfolding Wt_def Hm_def by blast
  define comp where "comp = full_bitmap_data full Wt Hm"
  have iff: "glyph_pixel comp c r \<longleftrightarrow>
               (\<exists>i<length gs. glyph_covers Hm (cursor_at gs i) (gs ! i) c r)"
    if "c < nat Wt" "r < nat Hm" for c r
  proof -
    from px that have "full ! r ! c =
        (if \<exists>i<length gs. glyph_covers Hm (cursor_at gs i) (gs ! i) c r then 1 else 0)"
      by blast
    then have "full ! r ! c \<noteq> 0 \<longleftrightarrow>
        (\<exists>i<length gs. glyph_covers Hm (cursor_at gs i) (gs ! i) c r)"
      by (simp split: if_splits)
    with composite_pixel [OF dims that(2,1)] show ?thesis by (simp add: comp_def)
  qed
  have lands: "glyph_pixel comp (nat (cursor_at gs i) + lx) (nat (Hm - glyph_height (gs ! i)) + ly)"
    if i: "i < length gs" and lx: "lx < nat (glyph_width (gs ! i))"
      and ly: "ly < nat (glyph_height (gs ! i))" and p: "glyph_pixel (gs ! i) lx ly"
    for i lx ly
  proof -
    from cursor_fits [OF assms(3) i]
    have c0: "0 \<le> cursor_at gs i" and cw: "cursor_at gs i + glyph_width (gs ! i) \<le> Wt"
      by (simp_all add: Wt_def)
    have hle: "glyph_height (gs ! i) \<le> Hm"
      unfolding Hm_def using i by simp
    define c where "c = nat (cursor_at gs i) + lx"
    define r where "r = nat (Hm - glyph_height (gs ! i)) + ly"
    have cb: "c < nat Wt" using c0 cw lx by (simp add: c_def)
    have rb: "r < nat Hm" using hle ly by (simp add: r_def)
    have ci: "int c - cursor_at gs i = int lx" using c0 by (simp add: c_def)
    have ri: "int r - (Hm - glyph_height (gs ! i)) = int ly" using hle by (simp add: r_def)
    have "glyph_covers Hm (cursor_at gs i) (gs ! i) c r"
      unfolding glyph_covers_def ci ri using c0 hle lx ly p
      by (simp add: c_def r_def)
    with i have "\<exists>i<length gs. glyph_covers Hm (cursor_at gs i) (gs ! i) c r" by blast
    with iff [OF cb rb] show ?thesis by (simp add: c_def r_def)
  qed
  from res lands iff show ?thesis
    unfolding comp_def Wt_def Hm_def by blast
qed

lemma glyph_A_pixel: "glyph_pixel glyph_A 1 0"
  by (simp add: glyph_pixel_def json_pixel_def dict_get_def glyph_A_def)

lemma cursor_AB: "cursor_at [glyph_A, glyph_B] 0 = 0"
  by (simp add: cursor_at_def)

theorem C2_bottom_aligned_blit_witness:
  "fetch_prefix font_network (actual_font_size oled_0 None) [0x41, 0x42] oled_0
     = ([glyph_A, glyph_B], [], oled_AB)
   \<and> list_all glyph_ok [glyph_A, glyph_B]
   \<and> glyph_pixel glyph_A 1 0
   \<and> (\<exists>comp. fetch_font_bitmap font_network oled_0 [0x41, 0x42] None = (Inr (Some comp), oled_AB)
          \<and> glyph_pixel comp 1 1)"
proof -
  have p: "fetch_prefix font_network (actual_font_size oled_0 None) [0x41, 0x42] oled_0
             = ([glyph_A, glyph_B], [], oled_AB)"
    by (simp only: actual_font_size_oled_0 fetch_prefix_AB)
  have ok: "list_all glyph_ok [glyph_A, glyph_B]"
    by (simp add: glyph_ok_A glyph_ok_B)
  have ne: "[glyph_A, glyph_B] \<noteq> []" by simp
  from C2_bottom_aligned_blit [OF p ne ok] obtain comp where
    r: "fetch_font_bitmap font_network oled_0 [0x41, 0x42] None = (Inr (Some comp), oled_AB)"
    and l: "\<forall>i lx ly. i < length [glyph_A, glyph_B]
                \<and> lx < nat (glyph_width ([glyph_A, glyph_B] ! i))
                \<and> ly < nat (glyph_height ([glyph_A, glyph_B] ! i))
                \<and> glyph_pixel ([glyph_A, glyph_B] ! i) lx ly
                \<longrightarrow> glyph_pixel comp
                      (nat (cursor_at [glyph_A, glyph_B] i) + lx)
                      (nat (Max (set (map glyph_height [glyph_A, glyph_B]))
                            - glyph_height ([glyph_A, glyph_B] ! i)) + ly)"
    by blast
  from l [rule_format, of 0 1 0] glyph_A_pixel have "glyph_pixel comp 1 1"
    by (simp add: glyph_A_dims glyph_B_dims cursor_AB)
  with r p ok glyph_A_pixel show ?thesis by blast
qed

lemma blit_row_with_py:
  "blit_row_with py_set2 b yo cx y xs g = blit_row b yo cx y xs g"
  by (induction xs arbitrary: g) (simp_all split: sum.splits)

lemma blit_rows_with_py:
  "blit_rows_with py_set2 b w yo cx ys g = blit_rows b w yo cx ys g"
  by (induction ys arbitrary: g) (simp_all add: blit_row_with_py split: sum.splits)

lemma stitch_loop_with_py:
  "stitch_loop_with py_set2 mh cx gs g = stitch_loop mh cx gs g"
  by (induction gs arbitrary: cx g) (simp_all add: blit_rows_with_py split: sum.splits)

lemma fetch_font_bitmap_with_py:
  "fetch_font_bitmap_with py_set2 net self t fsz = fetch_font_bitmap net self t fsz"
  by (simp only: fetch_font_bitmap_with_def fetch_font_bitmap_def stitch_loop_with_py)

lemma py_set2_strict_in:
  assumes "grid_dims H W grid" "0 \<le> r" "r < int H" "0 \<le> c" "c < int W"
  shows "py_set2_strict grid r c v = Inr (grid[nat r := (grid ! nat r)[nat c := v]])"
proof -
  from assms have "nat r < length grid" by (simp add: grid_dims_def)
  with assms have "length (grid ! nat r) = W" by (simp add: grid_dims_def)
  with assms show ?thesis
    by (simp add: py_set2_strict_def grid_dims_def)
qed

lemma py_set2_strict_outside:
  "r < 0 \<or> int (length grid) \<le> r \<Longrightarrow> py_set2_strict grid r c v = Inl IndexError"
  by (auto simp: py_set2_strict_def)

lemma blit_row_strict:
  assumes "grid_dims H W grid"
    and "json_index char_bitmap y = Inr (JArr ps)"
    and "0 \<le> yoff + y" "yoff + y < int H"
    and "\<forall>x\<in>set xs. 0 \<le> x \<and> x < int (length ps) \<and> 0 \<le> curx + x \<and> curx + x < int W"
  shows "blit_row_with py_set2_strict char_bitmap yoff curx y xs grid =
         blit_row char_bitmap yoff curx y xs grid"
  using assms(1,5)
proof (induction xs arbitrary: grid)
  case Nil
  then show ?case by simp
next
  case (Cons x xs)
  then have x: "0 \<le> x" "x < int (length ps)" "0 \<le> curx + x" "curx + x < int W"
    and rest: "\<forall>x\<in>set xs. 0 \<le> x \<and> x < int (length ps) \<and> 0 \<le> curx + x \<and> curx + x < int W"
    by simp_all
  have px: "json_index (JArr ps) x = Inr (ps ! nat x)"
    using x by (simp add: py_index_in)
  define g1 where "g1 = grid[nat (yoff + y) := (grid ! nat (yoff + y))[nat (curx + x) := 1]]"
  have s: "py_set2 grid (yoff + y) (curx + x) 1 = Inr g1"
    unfolding g1_def using py_set2_in [OF Cons.prems(1) assms(3,4) x(3,4)] .
  have s': "py_set2_strict grid (yoff + y) (curx + x) 1 = Inr g1"
    unfolding g1_def using py_set2_strict_in [OF Cons.prems(1) assms(3,4) x(3,4)] .
  have d1: "grid_dims H W g1"
    unfolding g1_def by (rule grid_dims_update [OF Cons.prems(1)])
  show ?case
    using assms(2) px s s' Cons.IH [OF d1 rest] Cons.IH [OF Cons.prems(1) rest]
    by simp
qed

lemma blit_rows_strict:
  assumes "grid_dims H W grid"
    and "0 \<le> w" "0 \<le> curx" "curx + w \<le> int W"
    and "\<forall>y\<in>set ys. 0 \<le> y \<and> y < int (length rows) \<and> 0 \<le> yoff + y \<and> yoff + y < int H
           \<and> (\<exists>ps. rows ! nat y = JArr ps \<and> int (length ps) = w)"
  shows "blit_rows_with py_set2_strict (JArr rows) w yoff curx ys grid =
         blit_rows (JArr rows) w yoff curx ys grid"
  using assms(1,5)
proof (induction ys arbitrary: grid)
  case Nil
  then show ?case by simp
next
  case (Cons y ys)
  then have y: "0 \<le> y" "y < int (length rows)" "0 \<le> yoff + y" "yoff + y < int H"
    and rest: "\<forall>y\<in>set ys. 0 \<le> y \<and> y < int (length rows) \<and> 0 \<le> yoff + y \<and> yoff + y < int H
           \<and> (\<exists>ps. rows ! nat y = JArr ps \<and> int (length ps) = w)"
    by simp_all
  from Cons.prems(2) obtain ps where ps: "rows ! nat y = JArr ps" "int (length ps) = w"
    by auto
  have jy: "json_index (JArr rows) y = Inr (JArr ps)"
    using y ps by (simp add: py_index_in)
  have xs: "\<forall>x\<in>set (py_range w). 0 \<le> x \<and> x < int (length ps) \<and> 0 \<le> curx + x \<and> curx + x < int W"
    using assms(2,3,4) ps(2) by (auto simp: py_range_set)
  from blit_row_pointwise [OF Cons.prems(1) jy y(3,4) xs] obtain g1
    where g1: "blit_row (JArr rows) yoff curx y (py_range w) grid = Inr g1" "grid_dims H W g1"
    by blast
  have "blit_row_with py_set2_strict (JArr rows) yoff curx y (py_range w) grid = Inr g1"
    using blit_row_strict [OF Cons.prems(1) jy y(3,4) xs] g1(1) by simp
  with g1(1) Cons.IH [OF g1(2) rest] show ?case by simp
qed

lemma blit_glyph_strict:
  assumes "grid_dims (nat H) W grid" and "glyph_ok g" and "glyph_height g \<le> H"
    and "0 \<le> curx" and "curx + glyph_width g \<le> int W"
    and "dict_item g ''bitmap'' = Inr b"
  shows "blit_rows_with py_set2_strict b (glyph_width g) (H - glyph_height g) curx
           (py_range (glyph_height g)) grid =
         blit_rows b (glyph_width g) (H - glyph_height g) curx (py_range (glyph_height g)) grid"
proof -
  from assms(2) obtain rows where g: "dict_item g ''bitmap'' = Inr (JArr rows)"
    "0 \<le> glyph_width g" "int (length rows) = glyph_height g"
    "\<forall>r\<in>set rows. \<exists>ps. r = JArr ps \<and> int (length ps) = glyph_width g"
    by (rule glyph_ok_dest)
  from g(1) assms(6) have b: "b = JArr rows" by simp
  have ys: "\<forall>y\<in>set (py_range (glyph_height g)). 0 \<le> y \<and> y < int (length rows)
              \<and> 0 \<le> (H - glyph_height g) + y \<and> (H - glyph_height g) + y < int (nat H)
              \<and> (\<exists>ps. rows ! nat y = JArr ps \<and> int (length ps) = glyph_width g)"
  proof
    fix y assume "y \<in> set (py_range (glyph_height g))"
    then have y: "0 \<le> y" "y < glyph_height g" by (simp_all add: py_range_set)
    with g(3) have "nat y < length rows" by simp
    then have "rows ! nat y \<in> set rows" by simp
    with g(4) have "\<exists>ps. rows ! nat y = JArr ps \<and> int (length ps) = glyph_width g" by simp
    with y g(3) assms(3) show "0 \<le> y \<and> y < int (length rows)
              \<and> 0 \<le> (H - glyph_height g) + y \<and> (H - glyph_height g) + y < int (nat H)
              \<and> (\<exists>ps. rows ! nat y = JArr ps \<and> int (length ps) = glyph_width g)"
      by simp
  qed
  show ?thesis
    unfolding b by (rule blit_rows_strict [OF assms(1) g(2) assms(4,5) ys])
qed

lemma stitch_strict:
  assumes "grid_dims (nat H) W grid" and "list_all glyph_ok gs"
    and "\<forall>g\<in>set gs. glyph_height g \<le> H"
    and "0 \<le> curx" and "curx + sum_list (map glyph_width gs) \<le> int W"
  shows "stitch_loop_with py_set2_strict H curx gs grid = stitch_loop H curx gs grid"
  using assms
proof (induction gs arbitrary: grid curx)
  case Nil
  then show ?case by simp
next
  case (Cons g gs)
  then have g: "glyph_ok g" "glyph_height g \<le> H" and gs: "list_all glyph_ok gs"
    "\<forall>g\<in>set gs. glyph_height g \<le> H"
    by simp_all
  from g(1) obtain rows where b: "dict_item g ''bitmap'' = Inr (JArr rows)"
    and dw: "glyph_dim g ''width'' = Inr (glyph_width g)"
    and dh: "glyph_dim g ''height'' = Inr (glyph_height g)"
    and w0: "0 \<le> glyph_width g"
    by (rule glyph_ok_dest)
  from sum_widths_nonneg [OF gs(1)] Cons.prems(5)
  have fit: "curx + glyph_width g \<le> int W"
    and fit': "(curx + glyph_width g) + sum_list (map glyph_width gs) \<le> int W"
    by simp_all
  from blit_glyph_pointwise [OF Cons.prems(1) g Cons.prems(4) fit b] obtain g1
    where g1: "blit_rows (JArr rows) (glyph_width g) (H - glyph_height g) curx
                    (py_range (glyph_height g)) grid = Inr g1"
      "grid_dims (nat H) W g1"
    by blast
  have s: "blit_rows_with py_set2_strict (JArr rows) (glyph_width g) (H - glyph_height g) curx
                    (py_range (glyph_height g)) grid = Inr g1"
    using blit_glyph_strict [OF Cons.prems(1) g Cons.prems(4) fit b] g1(1) by simp
  have c0: "0 \<le> curx + glyph_width g" using Cons.prems(4) w0 by simp
  from Cons.IH [OF g1(2) gs c0 fit'] b dw dh g1(1) s show ?case by simp
qed

lemma fetch_loop_ok:
  assumes "fetch_prefix net (actual_font_size self fsz) t self = (gs, [], self1)"
    and "gs \<noteq> []" and "list_all glyph_ok gs"
  shows "fetch_loop net (actual_font_size self fsz) t self [] 0 0 =
           (Inr (Some (gs, sum_list (map glyph_width gs), Max (set (map glyph_height gs)))), self1)"
proof -
  note f = glyph_ok_fetchable [OF assms(3)]
  have hm: "foldl max 0 (map glyph_height gs) = Max (set (map glyph_height gs))"
    using assms(2) f(3) by (intro foldl_max_zero) auto
  show ?thesis
    using fetch_loop_prefix [OF assms(1) f(1,2), of "[]" 0 0] hm by simp
qed

lemma compose_strict:
  assumes "fetch_prefix net (actual_font_size self fsz) t self = (gs, [], self1)"
    and "gs \<noteq> []" and "list_all glyph_ok gs"
  shows "fetch_font_bitmap_with py_set2_strict net self t fsz = fetch_font_bitmap net self t fsz"
proof -
  define Wt where "Wt = sum_list (map glyph_width gs)"
  define Hm where "Hm = Max (set (map glyph_height gs))"
  have loop: "fetch_loop net (actual_font_size self fsz) t self [] 0 0 =
                (Inr (Some (gs, Wt, Hm)), self1)"
    unfolding Wt_def Hm_def by (rule fetch_loop_ok [OF assms])
  have w0: "0 \<le> Wt" unfolding Wt_def by (rule sum_widths_nonneg [OF assms(3)])
  have le: "\<forall>g\<in>set gs. glyph_height g \<le> Hm"
    unfolding Hm_def by simp
  have fit: "0 + sum_list (map glyph_width gs) \<le> int (nat Wt)"
    using w0 by (simp add: Wt_def)
  have "stitch_loop_with py_set2_strict Hm 0 gs (new_full_bitmap Wt Hm) =
        stitch_loop Hm 0 gs (new_full_bitmap Wt Hm)"
    by (rule stitch_strict [OF new_full_bitmap_dims assms(3) le order_refl fit])
  with loop show ?thesis
    by (simp add: fetch_font_bitmap_with_def fetch_font_bitmap_def)
qed

text \<open>
  Claim C10, as amended. Take a line of glyphs whose rows match their declared width
  and height and whose declared width is not negative. The composition raises no
  IndexError and fills a grid of \<open>max_height\<close> rows and \<open>total_width\<close> columns.
  It returns the same composite when every write \<open>full_bitmap[r][c] = 1\<close> is made to
  raise for an index outside \<open>[0, len)\<close>, so no write of the blit leaves the grid or
  is wrapped around. For every glyph and every pixel \<open>(x, y)\<close> of it the row written,
  \<open>(max_height - char_height) + y\<close>, lies in \<open>[0, max_height)\<close> and the column
  written, \<open>current_x + x\<close>, lies in \<open>[0, total_width)\<close>.
\<close>

theorem C10_blit_in_bounds:
  assumes "cache_ok self"
    and "fetch_prefix net (actual_font_size self fsz) t self = (gs, [], self1)"
    and "gs \<noteq> []"
    and "list_all glyph_consistent gs"
    and "list_all (\<lambda>g. 0 \<le> glyph_width g) gs"
  shows "\<exists>full. fetch_font_bitmap net self t fsz =
            (Inr (Some (full_bitmap_data full (sum_list (map glyph_width gs))
                          (Max (set (map glyph_height gs))))), self1)
          \<and> fetch_font_bitmap_with py_set2_strict net self t fsz =
              fetch_font_bitmap net self t fsz
          \<and> grid_dims (nat (Max (set (map glyph_height gs))))
                      (nat (sum_list (map glyph_width gs))) full
          \<and> (\<forall>i x y. i < length gs \<and> 0 \<le> x \<and> x < glyph_width (gs ! i)
                \<and> 0 \<le> y \<and> y < glyph_height (gs ! i)
                \<longrightarrow> 0 \<le> (Max (set (map glyph_height gs)) - glyph_height (gs ! i)) + y
                  \<and> (Max (set (map glyph_height gs)) - glyph_height (gs ! i)) + y
                      < Max (set (map glyph_height gs))
                  \<and> 0 \<le> cursor_at gs i + x
                  \<and> cursor_at gs i + x < sum_list (map glyph_width gs))"
proof -
  from fetch_prefix_success [OF assms(1,2)] assms(4,5)
  have ok: "list_all glyph_ok gs"
    by (auto simp: list_all_iff glyph_ok_def)
  from compose_ok [OF assms(2,3) ok] obtain full where
    res: "fetch_font_bitmap net self t fsz =
            (Inr (Some (full_bitmap_data full (sum_list (map glyph_width gs))
                          (Max (set (map glyph_height gs))))), self1)"
    and dims: "grid_dims (nat (Max (set (map glyph_height gs))))
                      (nat (sum_list (map glyph_width gs))) full"
    by blast
  note strict = compose_strict [OF assms(2,3) ok]
  have b: "0 \<le> (Max (set (map glyph_height gs)) - glyph_height (gs ! i)) + y
         \<and> (Max (set (map glyph_height gs)) - glyph_height (gs ! i)) + y
              < Max (set (map glyph_height gs))
         \<and> 0 \<le> cursor_at gs i + x
         \<and> cursor_at gs i + x < sum_list (map glyph_width gs)"
    if "i < length gs" "0 \<le> x" "x < glyph_width (gs ! i)" "0 \<le> y" "y < glyph_height (gs ! i)"
    for i x y
  proof -
    from cursor_fits [OF ok that(1)]
    have c: "0 \<le> cursor_at gs i"
      "cursor_at gs i + glyph_width (gs ! i) \<le> sum_list (map glyph_width gs)"
      by simp_all
    have "glyph_height (gs ! i) \<le> Max (set (map glyph_height gs))"
      using that(1) by simp
    with c that show ?thesis by simp
  qed
  from res strict dims b show ?thesis by blast
qed

lemma glyph_consistent_AB: "list_all glyph_consistent [glyph_A, glyph_B]"
  using glyph_ok_A glyph_ok_B by (simp add: glyph_ok_def)

theorem C10_blit_in_bounds_witness:
  "cache_ok oled_0
   \<and> fetch_prefix font_network (actual_font_size oled_0 None) [0x41, 0x42] oled_0
     = ([glyph_A, glyph_B], [], oled_AB)
   \<and> list_all glyph_consistent [glyph_A, glyph_B]
   \<and> list_all (\<lambda>g. 0 \<le> glyph_width g) [glyph_A, glyph_B]
   \<and> (\<exists>full. fetch_font_bitmap font_network oled_0 [0x41, 0x42] None =
            (Inr (Some (full_bitmap_data full 3 3)), oled_AB)
          \<and> fetch_font_bitmap_with py_set2_strict font_network oled_0 [0x41, 0x42] None =
            (Inr (Some (full_bitmap_data full 3 3)), oled_AB)
          \<and> grid_dims 3 3 full)"
proof -
  have p: "fetch_prefix font_network (actual_font_size oled_0 None) [0x41, 0x42] oled_0
             = ([glyph_A, glyph_B], [], oled_AB)"
    by (simp only: actual_font_size_oled_0 fetch_prefix_AB)
  note c = glyph_consistent_AB
  have w: "list_all (\<lambda>g. 0 \<le> glyph_width g) [glyph_A, glyph_B]"
    by (simp add: glyph_A_dims glyph_B_dims)
  have ne: "[glyph_A, glyph_B] \<noteq> []" by simp
  from C10_blit_in_bounds [OF cache_ok_oled_0 p ne c w] obtain full where
    "fetch_font_bitmap font_network oled_0 [0x41, 0x42] None =
            (Inr (Some (full_bitmap_data full (sum_list (map glyph_width [glyph_A, glyph_B]))
                          (Max (set (map glyph_height [glyph_A, glyph_B]))))), oled_AB)"
    "fetch_font_bitmap_with py_set2_strict font_network oled_0 [0x41, 0x42] None =
              fetch_font_bitmap font_network oled_0 [0x41, 0x42] None"
    "grid_dims (nat (Max (set (map glyph_height [glyph_A, glyph_B]))))
                      (nat (sum_list (map glyph_width [glyph_A, glyph_B]))) full"
    by blast
  then have "fetch_font_bitmap font_network oled_0 [0x41, 0x42] None =
            (Inr (Some (full_bitmap_data full 3 3)), oled_AB)
          \<and> fetch_font_bitmap_with py_set2_strict font_network oled_0 [0x41, 0x42] None =
            (Inr (Some (full_bitmap_data full 3 3)), oled_AB)
          \<and> grid_dims 3 3 full"
    by (simp add: glyph_A_dims glyph_B_dims)
  with cache_ok_oled_0 p c w show ?thesis by blast
qed

text \<open>
  Claim C10 as stated fails. A glyph of height 0 with an empty bitmap and the declared
  width \<open>-1\<close> has rows that match its declared size, and moves the cursor to
  \<open>-1\<close>. The one-pixel glyph after it, in a grid of one row and no column, is written
  at column \<open>-1 + 0\<close>, and the write raises IndexError.
\<close>

theorem C10_negative_width_counterexample:
  "fst (fetch_prefix odd_network 24 [0x41, 0x42] oled_0) = [glyph_negative, dot_bitmap]
   \<and> list_all glyph_consistent [glyph_negative, dot_bitmap]
   \<and> glyph_height glyph_negative \<le> 1 \<and> glyph_height dot_bitmap \<le> 1
   \<and> sum_list (map glyph_width [glyph_negative, dot_bitmap]) = 0
   \<and> cursor_at [glyph_negative, dot_bitmap] 1 + 0 = - 1
   \<and> fst (fetch_font_bitmap odd_network oled_0 [0x41, 0x42] None) = Inl IndexError"
  by code_simp

lemma py_set2_outside:
  "int (length grid) \<le> r \<Longrightarrow> py_set2 grid r c v = Inl IndexError"
  by (simp add: py_set2_def py_norm_index_def)

lemma fetch_prefix_take:
  "fetch_prefix net fs t self = (gs, rest, self1) \<Longrightarrow> rest \<noteq> [] \<Longrightarrow>
   fetch_prefix net fs (take (Suc (length gs)) t) self = (gs, [hd rest], self1)"
proof (induction t arbitrary: self gs)
  case Nil
  then show ?case by simp
next
  case (Cons c cs)
  show ?case
  proof (cases "fetch_single_char_bitmap net self c fs")
    case (Pair r s1)
    show ?thesis
    proof (cases r)
      case None
      with Pair Cons.prems show ?thesis by auto
    next
      case (Some g)
      obtain gs' rest' s2 where p: "fetch_prefix net fs cs s1 = (gs', rest', s2)"
        by (cases "fetch_prefix net fs cs s1") auto
      with Pair Some Cons.prems(1) have eqs: "gs = g # gs'" "rest = rest'" "self1 = s2" by auto
      with p have "fetch_prefix net fs cs s1 = (gs', rest, self1)" by simp
      from Cons.IH [OF this Cons.prems(2)] Pair Some eqs show ?thesis by simp
    qed
  qed
qed

lemma compose_none:
  assumes "cache_ok self"
    and "fetch_prefix net (actual_font_size self fsz) t self = (gs, rest, self1)"
    and "list_all has_dims gs"
  shows "rest \<noteq> [] \<or> t = [] \<Longrightarrow> fetch_font_bitmap net self t fsz = (Inr None, self1)"
    and "rest = [] \<Longrightarrow> t \<noteq> [] \<Longrightarrow> fst (fetch_font_bitmap net self t fsz) \<noteq> Inr None"
proof -
  note ok = fetch_prefix_success [OF assms(1,2)]
  note loop = fetch_loop_prefix [OF assms(2) ok assms(3), of "[]" 0 0]
  note shape = fetch_prefix_shape [OF assms(2)]
  show "fetch_font_bitmap net self t fsz = (Inr None, self1)" if "rest \<noteq> [] \<or> t = []"
  proof (cases "rest = []")
    case False
    with loop show ?thesis by (simp add: fetch_font_bitmap_def)
  next
    case True
    with that shape have "gs = []" by simp
    with True loop show ?thesis by (simp add: fetch_font_bitmap_def)
  qed
  show "fst (fetch_font_bitmap net self t fsz) \<noteq> Inr None" if "rest = []" "t \<noteq> []"
  proof -
    from that shape have "gs \<noteq> []" by auto
    with that(1) loop show ?thesis
      by (simp add: fetch_font_bitmap_def split: sum.splits)
  qed
qed

text \<open>
  Claim C3. Take a display whose cache holds successful replies only, and a line whose
  glyphs, as far as they are fetched, carry numeric \<open>width\<close> and \<open>height\<close>. Then
  \<open>_fetch_font_bitmap\<close> returns \<open>None\<close> exactly when some character's lookup fails
  or the line has no character. When a lookup fails the call ends in the state right
  after that lookup and with the same result and state as on the line cut off after
  the failing character: no later character is looked up and no bitmap is built.
\<close>

theorem C3_compose_none_iff:
  assumes "cache_ok self"
    and "fetch_prefix net (actual_font_size self fsz) t self = (gs, rest, self1)"
    and "list_all has_dims gs"
  shows "(fst (fetch_font_bitmap net self t fsz) = Inr None \<longleftrightarrow> rest \<noteq> [] \<or> t = [])
       \<and> (rest \<noteq> [] \<longrightarrow>
            fetch_font_bitmap net self t fsz = (Inr None, self1)
            \<and> fetch_font_bitmap net self (take (Suc (length gs)) t) fsz = (Inr None, self1))"
proof -
  have a: "fst (fetch_font_bitmap net self t fsz) = Inr None \<longleftrightarrow> rest \<noteq> [] \<or> t = []"
    using compose_none [OF assms] by (cases "rest \<noteq> [] \<or> t = []") auto
  have b: "fetch_font_bitmap net self (take (Suc (length gs)) t) fsz = (Inr None, self1)"
    if "rest \<noteq> []"
  proof -
    from fetch_prefix_take [OF assms(2) that]
    have p: "fetch_prefix net (actual_font_size self fsz) (take (Suc (length gs)) t) self
               = (gs, [hd rest], self1)" .
    from compose_none(1) [OF assms(1) p assms(3)] show ?thesis by simp
  qed
  from a b compose_none(1) [OF assms] show ?thesis by blast
qed

theorem C3_compose_none_iff_witness:
  "cache_ok oled_0
   \<and> fetch_prefix font_network (actual_font_size oled_0 None) [0x41, 0x43, 0x42] oled_0
        = ([glyph_A], [0x43, 0x42], oled_AC)
   \<and> list_all has_dims [glyph_A]
   \<and> fetch_font_bitmap font_network oled_0 [0x41, 0x43, 0x42] None = (Inr None, oled_AC)
   \<and> fetch_font_bitmap font_network oled_0 [0x41, 0x43] None = (Inr None, oled_AC)"
proof -
  have p: "fetch_prefix font_network (actual_font_size oled_0 None) [0x41, 0x43, 0x42] oled_0
             = ([glyph_A], [0x43, 0x42], oled_AC)"
    by (simp only: actual_font_size_oled_0 fetch_prefix_ACB)
  have d: "list_all has_dims [glyph_A]" by (simp add: has_dims_A)
  from C3_compose_none_iff [OF cache_ok_oled_0 p d] cache_ok_oled_0 p d show ?thesis
    by simp
qed

text \<open>A composed line is a bitmap that the renderer reads without an exception.\<close>

lemma composite_consistent:
  assumes "grid_dims (nat mh) (nat tw) full" and "0 \<le> mh" and "0 \<le> tw"
  shows "glyph_consistent (full_bitmap_data full tw mh)"
proof -
  from assms have l: "int (length full) = mh" and r: "\<forall>row\<in>set full. int (length row) = tw"
    by (auto simp: grid_dims_def)
  from r have "list_all (row_has_width tw) (map (\<lambda>row. JArr (map JInt row)) full)"
    by (simp add: list_all_iff row_has_width_def)
  with l show ?thesis
    by (simp add: glyph_consistent_def full_bitmap_data_def json_rows_def json_int_of_def)
qed

lemma composed_line_renderable:
  assumes "fetch_prefix net (actual_font_size self fsz) t self = (gs, [], self1)"
    and "gs \<noteq> []" and "list_all glyph_ok gs"
  shows "\<exists>comp. fetch_font_bitmap net self t fsz = (Inr (Some comp), self1)
          \<and> glyph_consistent comp"
proof -
  from compose_ok [OF assms] obtain full where
    res: "fetch_font_bitmap net self t fsz =
            (Inr (Some (full_bitmap_data full (sum_list (map glyph_width gs))
                          (Max (set (map glyph_height gs))))), self1)"
    and dims: "grid_dims (nat (Max (set (map glyph_height gs))))
                      (nat (sum_list (map glyph_width gs))) full"
    by blast
  note f = glyph_ok_fetchable [OF assms(3)]
  have w0: "0 \<le> sum_list (map glyph_width gs)" by (rule sum_widths_nonneg [OF assms(3)])
  from assms(2) obtain g where g: "g \<in> set gs" by (cases gs) auto
  with f(3) have "0 \<le> glyph_height g" by blast
  moreover from g have "glyph_height g \<le> Max (set (map glyph_height gs))" by simp
  ultimately have h0: "0 \<le> Max (set (map glyph_height gs))" by simp
  from composite_consistent [OF dims h0 w0] res show ?thesis by blast
qed

section \<open>Properties of the renderer\<close>

lemma glyph_consistent_dest:
  assumes "glyph_consistent g"
  obtains rows where "dict_item g ''bitmap'' = Inr (JArr rows)"
    and "dict_get g ''bitmap'' JNull = JArr rows"
    and "glyph_dim g ''width'' = Inr (glyph_width g)"
    and "glyph_dim g ''height'' = Inr (glyph_height g)"
    and "int (length rows) = glyph_height g"
    and "\<forall>r\<in>set rows. \<exists>ps. r = JArr ps \<and> int (length ps) = glyph_width g"
proof -
  from assms obtain rows w h where f0: "json_rows (map_of g ''bitmap'') = Some rows"
      "json_int_of (map_of g ''width'') = Some w" "json_int_of (map_of g ''height'') = Some h"
      and f45: "int (length rows) = h" "list_all (row_has_width w) rows"
    by (auto simp: glyph_consistent_def split: option.splits)
  from f0(1) have f1: "map_of g ''bitmap'' = Some (JArr rows)"
    by (auto simp: json_rows_def split: option.splits json.splits)
  from f0(2) have f2: "map_of g ''width'' = Some (JInt w)"
    by (auto simp: json_int_of_def split: option.splits json.splits)
  from f0(3) have f3: "map_of g ''height'' = Some (JInt h)"
    by (auto simp: json_int_of_def split: option.splits json.splits)
  have w: "glyph_dim g ''width'' = Inr w" "glyph_width g = w"
    using f2 by (simp_all add: glyph_dim_def glyph_width_def dict_item_def)
  have h: "glyph_dim g ''height'' = Inr h" "glyph_height g = h"
    using f3 by (simp_all add: glyph_dim_def glyph_height_def dict_item_def)
  have r: "\<forall>r\<in>set rows. \<exists>ps. r = JArr ps \<and> int (length ps) = w"
  proof
    fix r assume "r \<in> set rows"
    with f45(2) have "row_has_width w r" by (simp add: list_all_iff)
    then show "\<exists>ps. r = JArr ps \<and> int (length ps) = w"
      by (cases r) (simp_all add: row_has_width_def)
  qed
  show ?thesis
    using that [of rows] f1 f45(1) w h r by (simp add: dict_item_def dict_get_def)
qed

lemma scroll_row_eq:
  assumes "json_index bitmap y = Inr (JArr ps)"
    and "\<forall>x\<in>set xs. 0 \<le> x \<and> x < int (length ps)"
  shows "scroll_row sw off yoff bitmap y xs drawn =
           Inr (drawn @ map (\<lambda>x. (sw - off + x, yoff + y))
                  (filter (\<lambda>x. truthy (ps ! nat x) \<and> 0 \<le> sw - off + x \<and> sw - off + x < sw) xs))"
  using assms(2)
proof (induction xs arbitrary: drawn)
  case Nil
  then show ?case by simp
next
  case (Cons x xs)
  then have x: "0 \<le> x" "x < int (length ps)"
    and rest: "\<forall>x\<in>set xs. 0 \<le> x \<and> x < int (length ps)"
    by simp_all
  have px: "json_index (JArr ps) x = Inr (ps ! nat x)"
    using x by (simp add: py_index_in)
  show ?case
    using assms(1) px Cons.IH [OF rest] by (simp add: Let_def)
qed

lemma scroll_rows_eq:
  assumes "\<forall>y\<in>set ys. 0 \<le> y \<and> y < int (length rows)
             \<and> (\<exists>ps. rows ! nat y = JArr ps \<and> int (length ps) = w)"
  shows "scroll_rows sw off yoff (JArr rows) w ys drawn =
           Inr (drawn @ concat (map (\<lambda>y. map (\<lambda>x. (sw - off + x, yoff + y))
                  (filter (\<lambda>x. json_pixel (JArr rows) (nat x) (nat y)
                               \<and> 0 \<le> sw - off + x \<and> sw - off + x < sw) (py_range w))) ys))"
  using assms
proof (induction ys arbitrary: drawn)
  case Nil
  then show ?case by simp
next
  case (Cons y ys)
  then have y: "0 \<le> y" "y < int (length rows)"
    and rest: "\<forall>y\<in>set ys. 0 \<le> y \<and> y < int (length rows)
             \<and> (\<exists>ps. rows ! nat y = JArr ps \<and> int (length ps) = w)"
    by simp_all
  from Cons.prems obtain ps where ps: "rows ! nat y = JArr ps" "int (length ps) = w"
    by auto
  have jy: "json_index (JArr rows) y = Inr (JArr ps)"
    using y ps by (simp add: py_index_in)
  have xs: "\<forall>x\<in>set (py_range w). 0 \<le> x \<and> x < int (length ps)"
    using ps(2) by (simp add: py_range_set)
  have f: "json_pixel (JArr rows) (nat x) (nat y) = truthy (ps ! nat x)" for x
    using ps(1) by (simp add: json_pixel_def)
  show ?case
    using scroll_row_eq [OF jy xs, of sw off yoff drawn] Cons.IH [OF rest]
    by (simp add: f)
qed

lemma scroll_frame_pixels:
  assumes "glyph_consistent bd" and "dict_item bd ''bitmap'' = Inr b"
  shows "\<exists>fr. scroll_frame self b (glyph_width bd) (glyph_height bd)
                 ((self_height self - glyph_height bd) div 2) off = Inr fr
          \<and> set fr = scroll_pixels self bd off"
proof -
  from assms(1) obtain rows where g: "dict_item bd ''bitmap'' = Inr (JArr rows)"
    "dict_get bd ''bitmap'' JNull = JArr rows"
    "int (length rows) = glyph_height bd"
    "\<forall>r\<in>set rows. \<exists>ps. r = JArr ps \<and> int (length ps) = glyph_width bd"
    by (rule glyph_consistent_dest)
  from g(1) assms(2) have b: "b = JArr rows" by simp
  define sw where "sw = self_width self"
  define yoff where "yoff = (self_height self - glyph_height bd) div 2"
  have ys: "\<forall>y\<in>set (py_range (glyph_height bd)). 0 \<le> y \<and> y < int (length rows)
             \<and> (\<exists>ps. rows ! nat y = JArr ps \<and> int (length ps) = glyph_width bd)"
  proof
    fix y assume "y \<in> set (py_range (glyph_height bd))"
    then have y: "0 \<le> y" "y < glyph_height bd" by (simp_all add: py_range_set)
    with g(3) have "nat y < length rows" by simp
    then have "rows ! nat y \<in> set rows" by simp
    with g(4) y g(3) show "0 \<le> y \<and> y < int (length rows)
             \<and> (\<exists>ps. rows ! nat y = JArr ps \<and> int (length ps) = glyph_width bd)"
      by simp
  qed
  define fr where "fr = concat (map (\<lambda>y. map (\<lambda>x. (sw - off + x, yoff + y))
                  (filter (\<lambda>x. json_pixel (JArr rows) (nat x) (nat y)
                               \<and> 0 \<le> sw - off + x \<and> sw - off + x < sw)
                     (py_range (glyph_width bd)))) (py_range (glyph_height bd)))"
  have "scroll_frame self b (glyph_width bd) (glyph_height bd) yoff off = Inr fr"
    unfolding scroll_frame_def b fr_def sw_def
    using scroll_rows_eq [OF ys, of "self_width self" off yoff "[]"] by simp
  moreover have "set fr = scroll_pixels self bd off"
  proof (rule set_eqI)
    fix p :: "int \<times> int"
    obtain px py where p: "p = (px, py)" by (cases p)
    show "p \<in> set fr \<longleftrightarrow> p \<in> scroll_pixels self bd off"
      unfolding p fr_def scroll_pixels_def glyph_pixel_def g(2) sw_def yoff_def
      by (auto simp: py_range_set)
  qed
  ultimately show ?thesis unfolding yoff_def by blast
qed

lemma scroll_frames_all:
  assumes "\<forall>off\<in>set offs. \<exists>fr. scroll_frame self b w h yoff off = Inr fr \<and> set fr = P off"
  shows "\<exists>frs. scroll_frames self b w h yoff offs = Inr frs \<and> length frs = length offs
          \<and> (\<forall>k<length offs. set (frs ! k) = P (offs ! k))"
  using assms
proof (induction offs)
  case Nil
  then show ?case by simp
next
  case (Cons off offs)
  then obtain fr where fr: "scroll_frame self b w h yoff off = Inr fr" "set fr = P off"
    by auto
  from Cons obtain frs where frs: "scroll_frames self b w h yoff offs = Inr frs"
    "length frs = length offs" "\<forall>k<length offs. set (frs ! k) = P (offs ! k)"
    by auto
  have "scroll_frames self b w h yoff (off # offs) = Inr (fr # frs)"
    using fr(1) frs(1) by simp
  moreover have "\<forall>k<length (off # offs). set ((fr # frs) ! k) = P ((off # offs) ! k)"
  proof (intro allI impI)
    fix k assume "k < length (off # offs)"
    then show "set ((fr # frs) ! k) = P ((off # offs) ! k)"
      using fr(2) frs(3) by (cases k) auto
  qed
  ultimately show ?case using frs(2) by auto
qed

lemma render_with_frames:
  assumes "scroll_mode self" and "glyph_consistent bd"
  shows "\<exists>frs. render_with offsets_of self bd = Inr frs
          \<and> length frs = length (offsets_of (self_width self + glyph_width bd))
          \<and> (\<forall>k<length frs.
                set (frs ! k) = scroll_pixels self bd
                                  (offsets_of (self_width self + glyph_width bd) ! k))"
proof -
  from assms(2) obtain rows where g: "dict_item bd ''bitmap'' = Inr (JArr rows)"
    "glyph_dim bd ''width'' = Inr (glyph_width bd)"
    "glyph_dim bd ''height'' = Inr (glyph_height bd)"
    by (rule glyph_consistent_dest)
  define offs where "offs = offsets_of (self_width self + glyph_width bd)"
  have "\<forall>off\<in>set offs. \<exists>fr. scroll_frame self (JArr rows) (glyph_width bd) (glyph_height bd)
                 ((self_height self - glyph_height bd) div 2) off = Inr fr
          \<and> set fr = scroll_pixels self bd off"
    using scroll_frame_pixels [OF assms(2) g(1)] by blast
  from scroll_frames_all [OF this] obtain frs where
    frs: "scroll_frames self (JArr rows) (glyph_width bd) (glyph_height bd)
            ((self_height self - glyph_height bd) div 2) offs = Inr frs"
      "length frs = length offs"
      "\<forall>k<length offs. set (frs ! k) = scroll_pixels self bd (offs ! k)"
    by blast
  have "render_with offsets_of self bd = Inr frs"
    using assms(1) g frs(1) by (simp add: render_with_def offs_def Let_def)
  with frs(2,3) show ?thesis unfolding offs_def by auto
qed

text \<open>
  Claim C8. In marquee mode, on a bitmap whose rows match its declared width and height,
  \<open>_render_bitmap\<close> draws one frame per offset, and the pixels drawn in the frame of
  an offset are exactly the points \<open>(width - offset + x, y_offset + y)\<close>, with
  \<open>y_offset = (height - bitmap_height) // 2\<close>, of the set bitmap pixels \<open>(x, y)\<close>
  whose column \<open>width - offset + x\<close> lies in \<open>[0, width)\<close>; the others are skipped.
\<close>

theorem C8_scroll_pixel_placement:
  assumes "scroll_mode self" and "glyph_consistent bd"
  shows "\<exists>frs. render_bitmap self bd = Inr frs
          \<and> length frs = length (scroll_offsets (self_width self + glyph_width bd))
          \<and> (\<forall>k<length frs.
                set (frs ! k) = scroll_pixels self bd
                                  (scroll_offsets (self_width self + glyph_width bd) ! k))"
  unfolding render_bitmap_def using assms by (rule render_with_frames)

lemma py_range3_last:
  "0 < step \<Longrightarrow> start < stop \<Longrightarrow>
   py_range3 start stop step \<noteq> [] \<and> stop - step \<le> last (py_range3 start stop step)
   \<and> last (py_range3 start stop step) < stop"
proof (induction start stop step rule: py_range3.induct)
  case (1 start stop step)
  have unfold: "py_range3 start stop step = start # py_range3 (start + step) stop step"
    using "1.prems" by (subst py_range3.simps) simp
  show ?case
  proof (cases "start + step < stop")
    case True
    from "1.IH" "1.prems" True
    have ih: "py_range3 (start + step) stop step \<noteq> []
      \<and> stop - step \<le> last (py_range3 (start + step) stop step)
      \<and> last (py_range3 (start + step) stop step) < stop"
      by blast
    with unfold show ?thesis by simp
  next
    case False
    then have "py_range3 (start + step) stop step = []"
      by (subst py_range3.simps) simp
    with unfold have "py_range3 start stop step = [start]" by simp
    with False "1.prems" show ?thesis by simp
  qed
qed

lemma scroll_pixels_exited:
  assumes "self_width self + glyph_width bd \<le> off"
  shows "scroll_pixels self bd off = {}"
  using assms by (auto simp: scroll_pixels_def)

lemma render_bitmap_last_frame_blank:
  assumes "scroll_mode self" and "glyph_consistent bd"
    and "0 \<le> self_width self + glyph_width bd"
  shows "\<exists>frs. render_bitmap self bd = Inr frs \<and> frs \<noteq> [] \<and> last frs = []"
proof -
  define total where "total = self_width self + glyph_width bd"
  from render_with_frames [OF assms(1,2), of scroll_offsets] obtain frs where
    frs: "render_bitmap self bd = Inr frs" "length frs = length (scroll_offsets total)"
      "\<forall>k<length frs. set (frs ! k) = scroll_pixels self bd (scroll_offsets total ! k)"
    unfolding render_bitmap_def total_def by blast
  have r: "scroll_offsets total \<noteq> []" "total \<le> last (scroll_offsets total)"
    using py_range3_last [of 2 0 "total + 2"] assms(3)
    by (simp_all add: scroll_offsets_def total_def)
  with frs(2) have ne: "frs \<noteq> []" by auto
  then have k: "length frs - 1 < length frs" by simp
  have "set (last frs) = scroll_pixels self bd (last (scroll_offsets total))"
    using frs(3) [rule_format, OF k] ne r(1) frs(2) by (simp add: last_conv_nth)
  also have "\<dots> = {}"
    using r(2) by (intro scroll_pixels_exited) (simp add: total_def)
  finally show ?thesis using frs(1) ne by simp
qed

lemma glyph_consistent_A: "glyph_consistent glyph_A"
  using glyph_ok_A by (simp add: glyph_ok_def)

lemma oled_0_fields: "scroll_mode oled_0" "self_width oled_0 = 128" "self_height oled_0 = 64"
  by (simp_all add: oled_0_def init_oled_def)

lemma scroll_offsets_130: "length (scroll_offsets 130) = 66" "scroll_offsets 130 ! 1 = 2"
  by code_simp+

lemma scroll_pixels_A: "(127, 31) \<in> scroll_pixels oled_0 glyph_A 2"
proof -
  have "0 \<le> (1::int) \<and> (1::int) < glyph_width glyph_A
        \<and> 0 \<le> (0::int) \<and> (0::int) < glyph_height glyph_A
        \<and> glyph_pixel glyph_A (nat 1) (nat 0)
        \<and> (127::int) = self_width oled_0 - 2 + 1
        \<and> (31::int) = (self_height oled_0 - glyph_height glyph_A) div 2 + 0
        \<and> 0 \<le> (127::int) \<and> (127::int) < self_width oled_0"
    using glyph_A_pixel by (simp add: glyph_A_dims oled_0_fields)
  then show ?thesis unfolding scroll_pixels_def by blast
qed

theorem C8_scroll_pixel_placement_witness:
  "scroll_mode oled_0 \<and> glyph_consistent glyph_A
   \<and> (\<exists>frs. render_bitmap oled_0 glyph_A = Inr frs \<and> length frs = 66
          \<and> (127, 31) \<in> set (frs ! 1))"
proof -
  from C8_scroll_pixel_placement [OF oled_0_fields(1) glyph_consistent_A]
  obtain frs where f: "render_bitmap oled_0 glyph_A = Inr frs"
    "length frs = length (scroll_offsets (self_width oled_0 + glyph_width glyph_A))"
    "\<forall>k<length frs. set (frs ! k) = scroll_pixels oled_0 glyph_A
                                  (scroll_offsets (self_width oled_0 + glyph_width glyph_A) ! k)"
    by blast
  have t: "self_width oled_0 + glyph_width glyph_A = 130"
    by (simp add: oled_0_fields glyph_A_dims)
  from f(2) have l: "length frs = 66" unfolding t by (simp add: scroll_offsets_130)
  then have "1 < length frs" by simp
  with f(3) have "set (frs ! 1) = scroll_pixels oled_0 glyph_A (scroll_offsets 130 ! 1)"
    unfolding t by blast
  then have "set (frs ! 1) = scroll_pixels oled_0 glyph_A 2"
    by (simp only: scroll_offsets_130)
  with scroll_pixels_A have "(127, 31) \<in> set (frs ! 1)"
    by blast
  with f(1) l oled_0_fields(1) glyph_consistent_A show ?thesis by blast
qed

text \<open>
  Claim C7. The marquee loop of \<open>oled_display.py\<close> (step 1) runs over
  \<open>range(total_scroll_width)\<close> and so stops one offset short of
  \<open>total_scroll_width\<close>: on the 128 by 64 display and the bitmap of one set pixel it
  draws 129 frames, for the offsets 0 to 128, and the last frame still shows the pixel,
  in column 0. The loop of \<open>demo1/oled_display_size.py\<close> (step 2) runs to
  \<open>total_scroll_width\<close> or one past it and ends on a blank frame
  (\<open>render_bitmap_last_frame_blank\<close> above).
\<close>

theorem C7_v0_last_frame_not_blank:
  "last_frame (render_bitmap_v0 oled_0 dot_bitmap) = Inr [(0, 31)]
   \<and> frame_count (render_bitmap_v0 oled_0 dot_bitmap) = Inr 129"
  by code_simp

section \<open>Properties of the font service\<close>

lemma strip_blank: "strip s = [] \<longleftrightarrow> list_all py_isspace s"
proof
  assume "strip s = []"
  then have "dropWhile py_isspace (rev (dropWhile py_isspace s)) = []"
    by (simp add: strip_def)
  then have "\<forall>c\<in>set (rev (dropWhile py_isspace s)). py_isspace c"
    by (metis dropWhile_eq_Nil_conv)
  then have a: "\<forall>c\<in>set (dropWhile py_isspace s). py_isspace c" by simp
  have "dropWhile py_isspace s = []"
  proof (cases "dropWhile py_isspace s")
    case Nil
    then show ?thesis .
  next
    case (Cons c cs)
    then have "\<not> py_isspace c" using hd_dropWhile [of py_isspace s] by simp
    moreover from Cons a have "py_isspace c" by simp
    ultimately show ?thesis by simp
  qed
  then have "\<forall>c\<in>set s. py_isspace c" by (metis dropWhile_eq_Nil_conv)
  then show "list_all py_isspace s" by (simp add: list_all_iff)
next
  assume "list_all py_isspace s"
  then have "\<forall>c\<in>set s. py_isspace c" by (simp add: list_all_iff)
  then have "dropWhile py_isspace s = []" by (metis dropWhile_eq_Nil_conv)
  then show "strip s = []" by (simp only: strip_def rev.simps dropWhile.simps)
qed

text \<open>
  Claim C9, as amended. Take a text that is empty or all whitespace, a font size of at
  least 1, a measured box of width and height 0 or more, and a Pillow that raises
  nothing for the image. Then \<open>text_to_bitmap\<close> returns a successful reply. Its
  \<open>width\<close> is positive: the measured width when that is not 0, else 1 for the empty
  text, else \<open>font_size // 3\<close> for each character, this last for font sizes from 3 on.
  Its \<open>height\<close> is the font size when the measured height is 0, and the measured
  height otherwise.
\<close>

theorem C9_blank_text_minimum_size:
  assumes "list_all py_isspace t"
    and "textbbox pil = Some (x0, y0, x1, y1)" and "x0 \<le> x1" and "y0 \<le> y1"
    and "1 \<le> font_size"
    and "x1 = x0 \<and> t \<noteq> [] \<longrightarrow> 3 \<le> font_size"
    and "w = (if x0 < x1 then x1 - x0
              else if t = [] then 1
              else (font_size div 3) * int (length t))"
    and "h = (if y0 < y1 then y1 - y0 else font_size)"
    and "w < 2 ^ 31" and "h < 2 ^ 31" and "\<not> image_raises pil w h"
  shows "dict_item (text_to_bitmap pil t font_size) ''success'' = Inr (JBool True)
       \<and> dict_item (text_to_bitmap pil t font_size) ''height'' = Inr (JInt h)
       \<and> dict_item (text_to_bitmap pil t font_size) ''width'' = Inr (JInt w)
       \<and> 0 < w"
proof -
  from assms(1) have b: "strip t = []" by (simp add: strip_blank)
  have w0: "0 < w"
  proof (cases "x0 < x1 \<or> t = []")
    case True
    then show ?thesis by (auto simp: assms(7))
  next
    case False
    with assms(3,6) have "3 \<le> font_size" by simp
    then have "0 < font_size div 3" by simp
    moreover from False have "0 < int (length t)" by simp
    ultimately have "0 < (font_size div 3) * int (length t)" by (rule mult_pos_pos)
    with False show ?thesis by (simp add: assms(7))
  qed
  have h0: "0 < h" using assms(4,5) by (simp add: assms(8))
  have ok: "\<not> (w < 0 \<or> h < 0 \<or> 2 ^ 31 \<le> w \<or> 2 ^ 31 \<le> h \<or> image_raises pil w h)"
    using w0 h0 assms(9,10,11) by simp
  have wd: "(if x1 - x0 = 0 \<and> 0 < length t then font_size div 3 * int (length t)
             else if x1 - x0 = 0 \<and> length t = 0 then 1 else x1 - x0) = w"
    using assms(3) by (auto simp: assms(7))
  have hd: "(if True \<and> y1 - y0 = 0 then font_size else y1 - y0) = h"
    using assms(4) by (auto simp: assms(8))
  have "text_to_bitmap pil t font_size =
          [(''bitmap'',
            JArr (map (\<lambda>y. JArr (map (\<lambda>x. JInt (if getpixel pil x y \<noteq> 0 then 1 else 0))
                                    (py_range w)))
                   (py_range h))),
           (''width'', JInt w), (''height'', JInt h), (''success'', JBool True)]"
    unfolding text_to_bitmap_def Let_def assms(2) b
    by (simp only: option.case prod.case refl if_True wd hd ok if_False)
  then show ?thesis using w0 by (simp add: dict_item_def)
qed

lemma blank_spaces: "list_all py_isspace [0x20]" "list_all py_isspace [0x20, 0x20]"
  by (simp_all add: py_isspace_def)

theorem C9_blank_text_minimum_size_witness:
  "list_all py_isspace [0x20, 0x20]
   \<and> textbbox pillow_empty_box = Some (0, 0, 0, 0)
   \<and> \<not> image_raises pillow_empty_box 16 24
   \<and> dict_item (text_to_bitmap pillow_empty_box [0x20, 0x20] 24) ''success'' = Inr (JBool True)
   \<and> dict_item (text_to_bitmap pillow_empty_box [0x20, 0x20] 24) ''height'' = Inr (JInt 24)
   \<and> dict_item (text_to_bitmap pillow_empty_box [0x20, 0x20] 24) ''width'' = Inr (JInt 16)"
proof -
  have bb: "textbbox pillow_empty_box = Some (0, 0, 0, 0)"
    by (simp add: pillow_empty_box_def)
  have nr: "\<not> image_raises pillow_empty_box 16 24"
    by (simp add: pillow_empty_box_def)
  from C9_blank_text_minimum_size [OF blank_spaces(2) bb, of 24 16 24] blank_spaces(2) bb nr
  show ?thesis by simp
qed

text \<open>
  Claim C9 as stated fails. For one space at font size 2 and an empty measured box the
  width is \<open>(2 // 3) * 1 = 0\<close>; for one space at font size 24 and a measured box of
  height 11 the height stays 11.
\<close>

theorem C9_blank_text_size_counterexample:
  "list_all py_isspace [0x20]
   \<and> dict_item (text_to_bitmap pillow_empty_box [0x20] 2) ''width'' = Inr (JInt 0)
   \<and> dict_item (text_to_bitmap pillow_cell_box [0x20] 24) ''height'' = Inr (JInt 11)"
proof -
  have b: "strip [0x20] = []" using blank_spaces(1) by (simp only: strip_blank)
  show ?thesis
    using blank_spaces(1)
    by (simp add: text_to_bitmap_def Let_def b dict_item_def pillow_empty_box_def
                  pillow_cell_box_def)
qed

end
